theory Spec2Isabelle
  imports Complex_Main "HOL-Library.Word" "HOL-Library.Sublist"
begin

section \<open>server\_client.cpp: the task server\<close>

subsection \<open>Type-erased values and exceptions\<close>

text \<open>
  \<open>std::any\<close> holds a value together with its dynamic type, or nothing. The C++ types are
  an open family; the model keeps a few of them, which is all \<open>any_cast\<close> needs: it
  compares the type of the stored value with the requested one.
\<close>

datatype tyid = TVoid | TInt | TLong | TBool | TString

datatype any = AnyEmpty | AnyInt "32 word" | AnyLong "64 word" | AnyBool bool | AnyString string

fun any_type :: "any \<Rightarrow> tyid" where
  "any_type AnyEmpty = TVoid"
| "any_type (AnyInt _) = TInt"
| "any_type (AnyLong _) = TLong"
| "any_type (AnyBool _) = TBool"
| "any_type (AnyString _) = TString"

text \<open>
  The exceptions of the program: \<open>std::runtime_error\<close> with its message (line 142 throws
  it with "Task ID not found"), and \<open>std::bad_any_cast\<close>, which \<open>std::any_cast\<close> throws
  when the stored type is not the requested one (or nothing is stored).
\<close>

datatype exn = Runtime_error string | Bad_any_cast

definition any_cast :: "tyid \<Rightarrow> any \<Rightarrow> exn + any" where
  "any_cast T a = (if a \<noteq> AnyEmpty \<and> any_type a = T then Inr a else Inl Bad_any_cast)"

text \<open>
  What a call of a client function does: it returns a value, it leaves by an exception,
  or the calling thread stays blocked (the state is then as before the call).
\<close>

datatype 'a outcome = Returned 'a | Threw exn | Blocks

subsection \<open>TaskWrapper\<close>

text \<open>
  \<open>TaskWrapper<F, Args...>\<close> (lines 37--69): the callable, its captured arguments, the
  result and the ready flag. The callable is a function of the captured arguments that
  returns a value or throws; \<open>'a\<close> is the type of the argument tuple. The task's own mutex
  and condition variable only make \<open>get_result\<close> wait for \<open>ready\<close>.
\<close>

record 'a task =
  func :: "'a \<Rightarrow> exn + any"
  args :: 'a
  result :: any
  ready :: bool

definition TaskWrapper :: "('a \<Rightarrow> exn + any) \<Rightarrow> 'a \<Rightarrow> 'a task" where
  "TaskWrapper f as = \<lparr>func = f, args = as, result = AnyEmpty, ready = False\<rparr>"

text \<open>
  \<open>execute\<close> (lines 50--58): \<open>std::apply(func, args)\<close> runs first; when it throws, nothing
  is stored and the exception leaves \<open>execute\<close>.
\<close>

definition execute :: "'a task \<Rightarrow> exn + 'a task" where
  "execute t = (case func t (args t) of
                  Inl e \<Rightarrow> Inl e
                | Inr res \<Rightarrow> Inr (t\<lparr>result := res, ready := True\<rparr>))"

text \<open>\<open>get_result\<close> (lines 60--64) waits until \<open>ready\<close>; \<open>None\<close> is the caller still waiting.\<close>

definition get_result :: "'a task \<Rightarrow> any option" where
  "get_result t = (if ready t then Some (result t) else None)"

subsection \<open>The global state and the server threads\<close>

text \<open>
  Where a server thread stands in \<open>server_thread\<close> (lines 71--97): before the loop test
  of line 75; before \<open>lock.lock()\<close> and the first test of the predicate of the wait
  (lines 76--79); inside \<open>cond_var.wait\<close>, having found the predicate false and still
  holding the lock; blocked inside \<open>cond_var.wait\<close>, the lock released, until it is
  notified; before the test of line 81 (holding the lock); before the test of line 85
  (holding the lock); before the lookup of line 90 (lock released); or after the loop.
\<close>

datatype pc = AtWhile | AtWait | Blocking | Blocked | AtStopCheck | AtPop | AtExecute | Exited

record worker =
  pc :: pc
  task_id :: "32 word"
  stop_requested :: bool

text \<open>
  A client thread inside \<open>add_task\<close> (lines 119--134): after line 123 it holds the id it
  was given and the callable and arguments it is about to store; after the critical
  section of lines 124--131 it has the notification of line 132 left to do.
\<close>

datatype 'a client = Allocated "32 word" "'a \<Rightarrow> exn + any" 'a | Pushed "32 word"

text \<open>
  The thread that uses the \<open>Server\<close> object: it is outside \<open>start\<close> and \<open>stop\<close>; or inside
  \<open>stop\<close> between \<open>request_stop()\<close> and \<open>notify_all()\<close> (lines 113--114); or inside
  \<open>start\<close>, in the move assignment of line 108, waiting to join the old thread (first
  index) before \<open>server_t\<close> takes the new one (second index).
\<close>

datatype server_call = NoCall | InStop | InStart nat nat

text \<open>
  The globals of lines 22--26, the threads started so far (a thread is named by its index),
  the \<open>server_t\<close> member of the one \<open>Server\<close> object (the index of the thread it owns
  while it is joinable), the owner of \<open>mut\<close> while a server thread holds it across steps,
  whether \<open>std::terminate\<close> has ended the process, the client threads that are inside
  \<open>add_task\<close>, and where the user of the \<open>Server\<close> object is.
\<close>

record 'a sys =
  tasks :: "32 word list"
  results :: "32 word \<rightharpoonup> 'a task"
  mut :: "nat option"
  nextid :: "32 word"
  threads :: "worker list"
  server_t :: "nat option"
  terminated :: bool
  clients :: "nat \<rightharpoonup> 'a client"
  calling :: server_call

definition init :: "'a sys" where
  "init = \<lparr>tasks = [], results = Map.empty, mut = None, nextid = 0, threads = [],
           server_t = None, terminated = False, clients = Map.empty, calling = NoCall\<rparr>"

text \<open>A thread that has just been started; \<open>task_id\<close> is assigned before it is read.\<close>

definition new_thread :: worker where
  "new_thread = \<lparr>pc = AtWhile, task_id = 0, stop_requested = False\<rparr>"

definition set_pc :: "nat \<Rightarrow> pc \<Rightarrow> 'a sys \<Rightarrow> 'a sys" where
  "set_pc i p s = s\<lparr>threads := (threads s)[i := (threads s ! i)\<lparr>pc := p\<rparr>]\<rparr>"

definition request_stop :: "nat \<Rightarrow> 'a sys \<Rightarrow> 'a sys" where
  "request_stop i s = s\<lparr>threads := (threads s)[i := (threads s ! i)\<lparr>stop_requested := True\<rparr>]\<rparr>"

text \<open>
  Leaving \<open>server_thread\<close>: the destructor of the \<open>unique_lock\<close> releases \<open>mut\<close> when the
  thread owns it (the \<open>break\<close> of line 82 is taken with the lock held).
\<close>

definition exit_thread :: "nat \<Rightarrow> 'a sys \<Rightarrow> 'a sys" where
  "exit_thread i s = (set_pc i Exited s)\<lparr>mut := (if mut s = Some i then None else mut s)\<rparr>"

text \<open>
  What an observer sees of a step: an id given out by \<open>nextid++\<close> (line 123), an id pushed
  onto the queue (line 130), an id popped by a server thread (line 87), \<open>execute\<close> called
  by a server thread on the task of an id (line 92).
\<close>

datatype event = Issue "32 word" | Push "32 word" | Pop nat "32 word" | Exec nat "32 word"

text \<open>
  One step of server thread \<open>i\<close>. \<open>cond_var.wait(lock, pred)\<close> is
  \<open>while (!pred()) wait(lock)\<close>. At \<open>AtWait\<close> the thread takes the lock, once it is free,
  and tests the predicate: when it holds the wait is over; when it does not, the thread
  goes on to \<open>wait(lock)\<close> (\<open>Blocking\<close>), which releases the lock and blocks (\<open>Blocked\<close>).
  A blocked thread takes no step of its own; a notification, or a spurious wake-up, puts
  it back to \<open>AtWait\<close>, where it takes the lock again and tests the predicate again.
  Locking a \<open>unique_lock\<close> that already owns its mutex throws \<open>std::system_error\<close>; an
  exception that leaves \<open>server_thread\<close> (that one, or one thrown by a task's callable in
  line 92) ends the process by \<open>std::terminate\<close>.
\<close>

definition server_thread :: "nat \<Rightarrow> 'a sys \<Rightarrow> event list \<times> 'a sys" where
  "server_thread i s =
     (let w = threads s ! i in
      case pc w of
        AtWhile \<Rightarrow>
          if stop_requested w then ([], exit_thread i s) else ([], set_pc i AtWait s)
      | AtWait \<Rightarrow>
          if mut s = Some i then ([], s\<lparr>terminated := True\<rparr>)
          else if mut s \<noteq> None then ([], s)
          else if tasks s \<noteq> [] \<or> stop_requested w
          then ([], (set_pc i AtStopCheck s)\<lparr>mut := Some i\<rparr>)
          else ([], (set_pc i Blocking s)\<lparr>mut := Some i\<rparr>)
      | Blocking \<Rightarrow> ([], (set_pc i Blocked s)\<lparr>mut := None\<rparr>)
      | Blocked \<Rightarrow> ([], s)
      | AtStopCheck \<Rightarrow>
          if stop_requested w then ([], exit_thread i s) else ([], set_pc i AtPop s)
      | AtPop \<Rightarrow>
          (case tasks s of
             [] \<Rightarrow> ([], set_pc i AtWhile s)
           | front # rest \<Rightarrow>
               ([Pop i front],
                s\<lparr>tasks := rest, mut := None,
                  threads := (threads s)[i := w\<lparr>pc := AtExecute, task_id := front\<rparr>]\<rparr>))
      | AtExecute \<Rightarrow>
          (case results s (task_id w) of
             None \<Rightarrow> ([], set_pc i AtWhile s)
           | Some t \<Rightarrow>
               (case execute t of
                  Inl e \<Rightarrow> ([Exec i (task_id w)], s\<lparr>terminated := True\<rparr>)
                | Inr t' \<Rightarrow>
                    ([Exec i (task_id w)],
                     (set_pc i AtWhile s)\<lparr>results := (results s)(task_id w \<mapsto> t')\<rparr>)))
      | Exited \<Rightarrow> ([], s))"

subsection \<open>Notifications\<close>

text \<open>
  Waking thread \<open>j\<close> when it is blocked in the wait. \<open>notify_all\<close> wakes every blocked
  thread. \<open>notify_one\<close> wakes one blocked thread when there is one, and which one is not
  determined: \<open>notify_one j\<close> is the outcome in which it is \<open>j\<close>, and \<open>None\<close> when that is
  not a possible outcome (\<open>j\<close> is not blocked although another thread is).
\<close>

definition wake :: "nat \<Rightarrow> 'a sys \<Rightarrow> 'a sys" where
  "wake j s =
     (if j < length (threads s) \<and> pc (threads s ! j) = Blocked then set_pc j AtWait s else s)"

definition notify_all :: "'a sys \<Rightarrow> 'a sys" where
  "notify_all s =
     s\<lparr>threads := map (\<lambda>w. if pc w = Blocked then w\<lparr>pc := AtWait\<rparr> else w) (threads s)\<rparr>"

definition notify_one :: "nat \<Rightarrow> 'a sys \<Rightarrow> 'a sys option" where
  "notify_one j s =
     (if j < length (threads s) \<and> pc (threads s ! j) = Blocked then Some (set_pc j AtWait s)
      else if list_ex (\<lambda>w. pc w = Blocked) (threads s) then None
      else Some s)"

subsection \<open>Server::start and Server::stop\<close>

text \<open>
  \<open>start\<close> (lines 107--109) constructs a new \<open>std::jthread\<close> running \<open>server_thread\<close> and
  move-assigns it to \<open>server_t\<close>. The move assignment, when \<open>server_t\<close> is joinable, calls
  \<open>request_stop()\<close> and then \<open>join()\<close> on the thread it owns, and only then takes the new
  thread; no notification is sent. \<open>start\<close> is the part up to the join, and leaves the
  caller waiting in it; \<open>start_join\<close> is the end of the call, which can be taken only once
  the old thread has left \<open>server_thread\<close>. The function returns \<open>void\<close> and has no error
  path.
\<close>

definition start :: "'a sys \<Rightarrow> 'a sys" where
  "start s =
     (let n = length (threads s);
          s1 = s\<lparr>threads := threads s @ [new_thread]\<rparr>
      in case server_t s of
           None \<Rightarrow> s1\<lparr>server_t := Some n\<rparr>
         | Some old \<Rightarrow> (request_stop old s1)\<lparr>calling := InStart old n\<rparr>)"

definition start_join :: "'a sys \<Rightarrow> 'a sys" where
  "start_join s =
     (case calling s of
        InStart old n \<Rightarrow>
          if old < length (threads s) \<and> pc (threads s ! old) = Exited
          then s\<lparr>server_t := Some n, calling := NoCall\<rparr> else s
      | _ \<Rightarrow> s)"

text \<open>
  \<open>stop\<close> (lines 111--116): when \<open>server_t\<close> is joinable, \<open>request_stop()\<close> and then
  \<open>cond_var.notify_all()\<close>, neither under \<open>mut\<close>; the thread is not joined, so \<open>server_t\<close>
  stays joinable. \<open>stop\<close> is the first statement, \<open>stop_notify\<close> the second.
\<close>

definition stop :: "'a sys \<Rightarrow> 'a sys" where
  "stop s = (case server_t s of None \<Rightarrow> s | Some i \<Rightarrow> (request_stop i s)\<lparr>calling := InStop\<rparr>)"

definition stop_notify :: "'a sys \<Rightarrow> 'a sys" where
  "stop_notify s = (notify_all s)\<lparr>calling := NoCall\<rparr>"

subsection \<open>add\_task and request\_result\<close>

text \<open>
  \<open>add_task\<close> (lines 119--134) in its atomic parts. \<open>alloc_id\<close> is line 123: \<open>nextid++\<close> on
  the \<open>std::atomic<int>\<close> (two's complement, it wraps), before \<open>mut\<close> is taken.
  \<open>insert_task\<close> is the critical section of lines 124--131: the new wrapper is stored under
  the id, replacing what was there, and the id is pushed onto the queue. The notification
  of line 132 is \<open>notify_one\<close>. \<open>add_task\<close> is a call up to line 131 during which no other
  thread takes a step.
\<close>

definition alloc_id :: "'a sys \<Rightarrow> 32 word \<times> 'a sys" where
  "alloc_id s = (nextid s, s\<lparr>nextid := nextid s + 1\<rparr>)"

definition insert_task :: "32 word \<Rightarrow> ('a \<Rightarrow> exn + any) \<Rightarrow> 'a \<Rightarrow> 'a sys \<Rightarrow> 'a sys" where
  "insert_task tid f as s =
     s\<lparr>results := (results s)(tid \<mapsto> TaskWrapper f as), tasks := tasks s @ [tid]\<rparr>"

definition add_task :: "('a \<Rightarrow> exn + any) \<Rightarrow> 'a \<Rightarrow> 'a sys \<Rightarrow> 32 word \<times> 'a sys" where
  "add_task f as s = (fst (alloc_id s), insert_task (fst (alloc_id s)) f as (snd (alloc_id s)))"

text \<open>
  \<open>request_result<T>\<close> (lines 136--154): the lookup, the wait for the task, the cast, and
  only then the removal of the entry under \<open>mut\<close>.
\<close>

definition request_result :: "tyid \<Rightarrow> 32 word \<Rightarrow> 'a sys \<Rightarrow> any outcome \<times> 'a sys" where
  "request_result T tid s =
     (case results s tid of
        None \<Rightarrow> (Threw (Runtime_error ''Task ID not found''), s)
      | Some t \<Rightarrow>
          (case get_result t of
             None \<Rightarrow> (Blocks, s)
           | Some a \<Rightarrow>
               (case any_cast T a of
                  Inl e \<Rightarrow> (Threw e, s)
                | Inr res \<Rightarrow> (Returned res, s\<lparr>results := (results s)(tid := None)\<rparr>))))"

text \<open>\<open>f_smthlse\<close> (lines 177--181), a template over the number type.\<close>

definition f_smthlse :: "'n::{times,plus} \<Rightarrow> 'n \<Rightarrow> 'n \<Rightarrow> 'n" where
  "f_smthlse a b c = a * b + c"

subsection \<open>Interleavings\<close>

text \<open>
  The threads of the program interleave their atomic steps. A step that cannot be taken
  in a state (the thread waits for \<open>mut\<close>, or for another thread, or is not at that point)
  leaves the state as it is.
  \<^item> \<open>Worker i\<close>: a step of server thread \<open>i\<close>.
  \<^item> \<open>Call c f as\<close>: client thread \<open>c\<close> enters \<open>add_task\<close> and takes its id (line 123);
    \<open>Insert c\<close>: it runs the critical section (lines 124--131), once \<open>mut\<close> is free;
    \<open>Notify c j\<close>: it calls \<open>notify_one\<close> (line 132), which wakes \<open>j\<close>, and returns.
  \<^item> \<open>Request T tid\<close>: a call of \<open>request_result<T>(tid)\<close>, taken when its critical section
    runs. (A retrieval that fails takes no lock; a server thread that holds \<open>mut\<close> does
    not touch \<open>results\<close>, so the call finds the same before or after.)
  \<^item> \<open>Start\<close>, \<open>Join\<close>: the two parts of \<open>start\<close>; \<open>Stop\<close>, \<open>NotifyAll\<close>: the two
    statements of \<open>stop\<close>. The user of the \<open>Server\<close> object begins a call only when it is in
    none. None of them takes \<open>mut\<close>.
  \<^item> \<open>Spurious j\<close>: thread \<open>j\<close>, blocked in the wait, wakes up without a notification,
    as a condition variable allows.
  After \<open>std::terminate\<close> nothing runs.
\<close>

datatype 'a action =
    Worker nat
  | Call nat "'a \<Rightarrow> exn + any" 'a
  | Insert nat
  | Notify nat nat
  | Request tyid "32 word"
  | Start
  | Join
  | Stop
  | NotifyAll
  | Spurious nat

definition client_step :: "nat \<Rightarrow> nat option \<Rightarrow> 'a sys \<Rightarrow> event list \<times> 'a sys" where
  "client_step c waking s =
     (case (clients s c, waking) of
        (Some (Allocated tid f as), None) \<Rightarrow>
          if mut s \<noteq> None then ([], s)
          else ([Push tid], (insert_task tid f as s)\<lparr>clients := (clients s)(c \<mapsto> Pushed tid)\<rparr>)
      | (Some (Pushed tid), Some j) \<Rightarrow>
          (case notify_one j s of
             None \<Rightarrow> ([], s)
           | Some s1 \<Rightarrow> ([], s1\<lparr>clients := (clients s)(c := None)\<rparr>))
      | _ \<Rightarrow> ([], s))"

definition step :: "'a action \<Rightarrow> 'a sys \<Rightarrow> event list \<times> 'a sys" where
  "step a s =
     (if terminated s then ([], s)
      else case a of
        Worker i \<Rightarrow> if i < length (threads s) then server_thread i s else ([], s)
      | Call c f as \<Rightarrow>
          if clients s c \<noteq> None then ([], s)
          else ([Issue (fst (alloc_id s))],
                (snd (alloc_id s))\<lparr>clients := (clients s)(c \<mapsto> Allocated (fst (alloc_id s)) f as)\<rparr>)
      | Insert c \<Rightarrow> client_step c None s
      | Notify c j \<Rightarrow> client_step c (Some j) s
      | Request T tid \<Rightarrow>
          if mut s \<noteq> None then ([], s) else ([], snd (request_result T tid s))
      | Start \<Rightarrow> if calling s = NoCall then ([], start s) else ([], s)
      | Join \<Rightarrow> ([], start_join s)
      | Stop \<Rightarrow> if calling s = NoCall then ([], stop s) else ([], s)
      | NotifyAll \<Rightarrow> if calling s = InStop then ([], stop_notify s) else ([], s)
      | Spurious j \<Rightarrow> ([], wake j s))"

fun run :: "'a action list \<Rightarrow> 'a sys \<Rightarrow> event list \<times> 'a sys" where
  "run [] s = ([], s)"
| "run (a # acts) s =
     (let (es, s1) = step a s; (es', s2) = run acts s1 in (es @ es', s2))"

text \<open>
  A whole call of \<open>add_task\<close> by client \<open>c\<close>, its three steps one after the other, the
  notification waking \<open>j\<close>.
\<close>

definition submit :: "nat \<Rightarrow> ('a \<Rightarrow> exn + any) \<Rightarrow> 'a \<Rightarrow> nat \<Rightarrow> 'a action list" where
  "submit c f as j = [Call c f as, Insert c, Notify c j]"

fun issues :: "event list \<Rightarrow> 32 word list" where
  "issues [] = []"
| "issues (Issue x # es) = x # issues es"
| "issues (_ # es) = issues es"

fun pushes :: "event list \<Rightarrow> 32 word list" where
  "pushes [] = []"
| "pushes (Push x # es) = x # pushes es"
| "pushes (_ # es) = pushes es"

fun pops :: "event list \<Rightarrow> 32 word list" where
  "pops [] = []"
| "pops (Pop _ x # es) = x # pops es"
| "pops (_ # es) = pops es"

fun pops_of :: "nat \<Rightarrow> event list \<Rightarrow> 32 word list" where
  "pops_of i [] = []"
| "pops_of i (Pop j x # es) = (if j = i then x # pops_of i es else pops_of i es)"
| "pops_of i (_ # es) = pops_of i es"

fun execs :: "event list \<Rightarrow> 32 word list" where
  "execs [] = []"
| "execs (Exec _ x # es) = x # execs es"
| "execs (_ # es) = execs es"

fun execs_of :: "nat \<Rightarrow> event list \<Rightarrow> 32 word list" where
  "execs_of i [] = []"
| "execs_of i (Exec j x # es) = (if j = i then x # execs_of i es else execs_of i es)"
| "execs_of i (_ # es) = execs_of i es"

subsection \<open>The program's own run\<close>

text \<open>
  \<open>main\<close> (lines 218--243) starts the server and submits \<open>f_smthlse<int>\<close> with the
  arguments 2, 2, 2. The callable stored in the wrapper takes the tuple of the three
  captured \<open>int\<close>s; their arithmetic is taken in 32 bits (an overflow of \<open>int\<close> is
  undefined in C++, and none occurs in what follows). In \<open>served\<close> the server thread has
  first found the queue empty and blocked in the wait, has been woken by the notification
  of the submission, and has gone once around its loop. \<open>queued\<close> is the state in which
  it has passed the test of line 81 and is about to pop.
\<close>

type_synonym int3 = "32 word \<times> 32 word \<times> 32 word"

definition f_smthlse_int :: "int3 \<Rightarrow> exn + any" where
  "f_smthlse_int = (\<lambda>(a, b, c). Inr (AnyInt (f_smthlse a b c)))"

definition served :: "int3 sys" where
  "served = snd (run ([Start, Worker 0, Worker 0, Worker 0] @ submit 0 f_smthlse_int (2, 2, 2) 0 @
                      [Worker 0, Worker 0, Worker 0, Worker 0]) init)"

definition queued :: "int3 sys" where
  "queued = snd (run (Start # submit 0 f_smthlse_int (2, 2, 2) 0 @ [Worker 0, Worker 0, Worker 0]) init)"

text \<open>A callable that throws, and the state in which a server thread is about to execute it.\<close>

definition failing :: "int3 \<Rightarrow> exn + any" where
  "failing = (\<lambda>_. Inl (Runtime_error ''task failed''))"

definition crashing :: "int3 sys" where
  "crashing = snd (run (Start # submit 0 failing (0, 0, 0) 0 @ submit 0 f_smthlse_int (2, 2, 2) 0 @
                        [Worker 0, Worker 0, Worker 0, Worker 0]) init)"

text \<open>
  The server has been started and its thread, finding nothing to do, has blocked in the
  wait; now \<open>start\<close> is called again.
\<close>

definition restarting :: "int3 sys" where
  "restarting = snd (run [Start, Worker 0, Worker 0, Worker 0, Start] init)"

subsection \<open>Notions used in the properties\<close>

text \<open>The id a server thread has popped and not yet looked up.\<close>

definition inflight :: "nat \<Rightarrow> 'a sys \<Rightarrow> 32 word list" where
  "inflight i s =
     (if \<not> terminated s \<and> i < length (threads s) \<and> pc (threads s ! i) = AtExecute
      then [task_id (threads s ! i)] else [])"

text \<open>
  A thread that has been asked to stop, and how many more ids it can pop, and on how many
  more tasks it can call \<open>execute\<close>, judging by where it stands.
\<close>

definition stopping :: "nat \<Rightarrow> 'a sys \<Rightarrow> bool" where
  "stopping i s = (i < length (threads s) \<and> stop_requested (threads s ! i))"

definition pop_budget :: "nat \<Rightarrow> 'a sys \<Rightarrow> nat" where
  "pop_budget i s = (if \<not> terminated s \<and> pc (threads s ! i) = AtPop then 1 else 0)"

definition exec_budget :: "nat \<Rightarrow> 'a sys \<Rightarrow> nat" where
  "exec_budget i s =
     (if \<not> terminated s \<and> (pc (threads s ! i) = AtPop \<or> pc (threads s ! i) = AtExecute) then 1 else 0)"

text \<open>
  The entry under \<open>tid\<close>, as long as there is one, is the task made from \<open>f\<close> and \<open>x\<close>, and
  once it is ready its result is what \<open>f x\<close> returns.
\<close>

definition holds_task :: "32 word \<Rightarrow> ('a \<Rightarrow> exn + any) \<Rightarrow> 'a \<Rightarrow> 'a sys \<Rightarrow> bool" where
  "holds_task tid f x s =
     (case results s tid of
        None \<Rightarrow> True
      | Some t \<Rightarrow> func t = f \<and> args t = x \<and> (ready t \<longrightarrow> f x = Inr (result t)))"

text \<open>
  A server thread at the head of its loop that has not been asked to stop, with \<open>mut\<close>
  free; a queue none of whose tasks throws; one turn of the loop of thread \<open>i\<close> (five
  steps); and a task that is still queued or already has the result \<open>v\<close>.
\<close>

definition idle :: "nat \<Rightarrow> 'a sys \<Rightarrow> bool" where
  "idle i s = (\<not> terminated s \<and> mut s = None \<and> i < length (threads s) \<and>
               pc (threads s ! i) = AtWhile \<and> \<not> stop_requested (threads s ! i))"

definition harmless :: "'a sys \<Rightarrow> bool" where
  "harmless s = (\<forall>y \<in> set (tasks s). \<forall>t. results s y = Some t \<longrightarrow> (\<exists>v. func t (args t) = Inr v))"

definition serve :: "nat \<Rightarrow> 'a action list" where
  "serve i = [Worker i, Worker i, Worker i, Worker i, Worker i]"

definition awaited :: "32 word \<Rightarrow> ('a \<Rightarrow> exn + any) \<Rightarrow> 'a \<Rightarrow> any \<Rightarrow> 'a sys \<Rightarrow> bool" where
  "awaited tid f x v s =
     (\<exists>t. results s tid = Some t \<and> func t = f \<and> args t = x \<and>
          (tid \<in> set (tasks s) \<or> (ready t \<and> result t = v)))"


text \<open>
  Schedules in which \<open>i\<close> is the only server thread that takes steps; schedules without
  any wake-up (no notification and no spurious wake-up); a queue all of whose ids have an
  entry in \<open>results\<close>; and states in which no server thread is blocked in the wait.
\<close>

definition only_worker :: "nat \<Rightarrow> 'a action list \<Rightarrow> bool" where
  "only_worker i acts = list_all (\<lambda>a. case a of Worker j \<Rightarrow> j = i | _ \<Rightarrow> True) acts"

definition no_wake :: "'a action list \<Rightarrow> bool" where
  "no_wake acts =
     list_all (\<lambda>a. case a of Notify c j \<Rightarrow> False | NotifyAll \<Rightarrow> False | Spurious j \<Rightarrow> False
                       | _ \<Rightarrow> True) acts"

definition registered :: "'a sys \<Rightarrow> bool" where
  "registered s = list_all (\<lambda>y. results s y \<noteq> None) (tasks s)"

definition none_blocked :: "'a sys \<Rightarrow> bool" where
  "none_blocked s = (\<not> list_ex (\<lambda>w. pc w = Blocked) (threads s))"

text \<open>
  The steps that neither belong to a server thread nor touch the queue or \<open>results\<close>, and
  what such a step can change in the state apart from \<open>nextid\<close>, \<open>server_t\<close>, \<open>clients\<close> and
  \<open>calling\<close>: threads may be added, asked to stop, or woken.
\<close>

definition quiet :: "'a action \<Rightarrow> bool" where
  "quiet a = (case a of Worker i \<Rightarrow> False | Insert c \<Rightarrow> False | Request T tid \<Rightarrow> False | _ \<Rightarrow> True)"

definition evolved :: "'a sys \<Rightarrow> 'a sys \<Rightarrow> bool" where
  "evolved s s' =
     (tasks s' = tasks s \<and> results s' = results s \<and> mut s' = mut s \<and>
      terminated s' = terminated s \<and> length (threads s) \<le> length (threads s') \<and>
      (\<forall>i < length (threads s).
         task_id (threads s' ! i) = task_id (threads s ! i) \<and>
         (stop_requested (threads s ! i) \<longrightarrow> stop_requested (threads s' ! i)) \<and>
         (pc (threads s' ! i) = pc (threads s ! i) \<or>
          pc (threads s ! i) = Blocked \<and> pc (threads s' ! i) = AtWait)) \<and>
      (\<forall>i < length (threads s'). length (threads s) \<le> i \<longrightarrow> pc (threads s' ! i) = AtWhile))"

text \<open>
  Client thread \<open>c\<close> calls \<open>add_task\<close> for each callable and arguments of a list, one call
  after the other.
\<close>

definition submit_all :: "nat \<Rightarrow> nat \<Rightarrow> (('a \<Rightarrow> exn + any) \<times> 'a) list \<Rightarrow> 'a action list" where
  "submit_all c j reqs = concat (map (\<lambda>(f, as). submit c f as j) reqs)"

section \<open>matrix\_vector.cpp: the matrix-vector product\<close>

text \<open>
  The arithmetic of the C++ types, with values as mathematical integers. \<open>in_int\<close>: the
  value fits an \<open>int\<close> (an \<open>int\<close> operation whose result does not fit is undefined
  behaviour). \<open>to_int\<close>: conversion of an integer value to \<open>int\<close>, which keeps the low
  32 bits. \<open>to_size_t\<close>: conversion to \<open>size_t\<close>, which keeps the low 64 bits.
\<close>

definition in_int :: "int \<Rightarrow> bool" where
  "in_int v = (- (2 ^ 31) \<le> v \<and> v < 2 ^ 31)"

definition to_int :: "int \<Rightarrow> int" where
  "to_int v = (v + 2 ^ 31) mod 2 ^ 32 - 2 ^ 31"

definition to_size_t :: "int \<Rightarrow> nat" where
  "to_size_t v = nat (v mod 2 ^ 64)"

text \<open>
  The arrays are lists of the allocated length; the element type \<open>'a\<close> stands for
  \<open>double\<close> with its addition and multiplication, of which no law is used. \<open>None\<close> is
  undefined behaviour: an access outside an array, an \<open>int\<close> overflow, a division by zero.

  The inner loop of lines 26--27 and 47--48, from \<open>j\<close> on:
  \<open>for (int j = 0; j < n; j++) c[i] += a[i * n + j] * b[j];\<close>
  with \<open>i * n + j\<close> computed in \<open>size_t\<close>.
\<close>

function inner_loop :: "'a::{zero,plus,times} list \<Rightarrow> 'a list \<Rightarrow> 'a list \<Rightarrow> int \<Rightarrow> nat \<Rightarrow> int \<Rightarrow> 'a list option" where
  "inner_loop a b c i n j =
     (if to_size_t j < n then
        (let k = (to_size_t i * n + to_size_t j) mod 2 ^ 64 in
         if \<not> (0 \<le> i \<and> nat i < length c \<and> k < length a \<and> 0 \<le> j \<and> nat j < length b) then None
         else if \<not> in_int (j + 1) then None
         else inner_loop a b (c[nat i := c ! nat i + a ! k * b ! nat j]) i n (j + 1))
      else Some c)"
  by pat_completeness auto
termination
  by (relation "measure (\<lambda>(a, b, c, i, n, j). nat (2 ^ 31 - j))") (auto simp: in_int_def)

text \<open>The body of the outer loops (lines 25--27 and 46--48) for row \<open>i\<close>.\<close>

definition row_body :: "'a::{zero,plus,times} list \<Rightarrow> 'a list \<Rightarrow> 'a list \<Rightarrow> int \<Rightarrow> nat \<Rightarrow> 'a list option" where
  "row_body a b c i n =
     (if 0 \<le> i \<and> nat i < length c then inner_loop a b (c[nat i := 0]) i n 0 else None)"

text \<open>
  \<open>matrix_vector_product\<close> (lines 18--29): \<open>for (int i = 0; i < m; i++)\<close>, the test made
  in \<open>size_t\<close>.
\<close>

function mvp_loop :: "'a::{zero,plus,times} list \<Rightarrow> 'a list \<Rightarrow> 'a list \<Rightarrow> nat \<Rightarrow> nat \<Rightarrow> int \<Rightarrow> 'a list option" where
  "mvp_loop a b c m n i =
     (if to_size_t i < m then
        (case row_body a b c i n of
           None \<Rightarrow> None
         | Some c' \<Rightarrow> if \<not> in_int (i + 1) then None else mvp_loop a b c' m n (i + 1))
      else Some c)"
  by pat_completeness auto
termination
  by (relation "measure (\<lambda>(a, b, c, m, n, i). nat (2 ^ 31 - i))") (auto simp: in_int_def)

definition matrix_vector_product :: "'a::{zero,plus,times} list \<Rightarrow> 'a list \<Rightarrow> 'a list \<Rightarrow> nat \<Rightarrow> nat \<Rightarrow> 'a list option" where
  "matrix_vector_product a b c m n = mvp_loop a b c m n 0"

text \<open>
  \<open>matrix_vector_product_omp\<close> (lines 31--50). The bounds of lines 39--41:
  \<open>m / nthreads\<close> is a division in \<open>size_t\<close>, converted to \<open>int\<close>; the conditional
  expression has the type \<open>size_t\<close> of \<open>m - 1\<close>, and its value is converted to \<open>int\<close>.
\<close>

definition omp_bounds :: "nat \<Rightarrow> int \<Rightarrow> int \<Rightarrow> (int \<times> int) option" where
  "omp_bounds m nthreads threadid =
     (if to_size_t nthreads = 0 then None
      else
        let items_per_thread = to_int (int (m div to_size_t nthreads)) in
        if \<not> in_int (threadid * items_per_thread) then None
        else
          let lb = threadid * items_per_thread in
          if \<not> in_int (nthreads - 1) then None
          else if threadid = nthreads - 1
          then Some (lb, to_int (int ((m + 2 ^ 64 - 1) mod 2 ^ 64)))
          else if \<not> in_int (lb + items_per_thread) \<or> \<not> in_int (lb + items_per_thread - 1) then None
          else Some (lb, to_int (int (to_size_t (lb + items_per_thread - 1)))))"

text \<open>The loop of lines 44--49: \<open>for (int i = lb; i <= ub; i++)\<close>.\<close>

function omp_loop :: "'a::{zero,plus,times} list \<Rightarrow> 'a list \<Rightarrow> 'a list \<Rightarrow> nat \<Rightarrow> int \<Rightarrow> int \<Rightarrow> 'a list option" where
  "omp_loop a b c n i ub =
     (if i \<le> ub then
        (case row_body a b c i n of
           None \<Rightarrow> None
         | Some c' \<Rightarrow> if \<not> in_int (i + 1) then None else omp_loop a b c' n (i + 1) ub)
      else Some c)"
  by pat_completeness auto
termination
  by (relation "measure (\<lambda>(a, b, c, n, i, ub). nat (ub + 1 - i))") auto

definition matrix_vector_product_omp ::
    "'a::{zero,plus,times} list \<Rightarrow> 'a list \<Rightarrow> 'a list \<Rightarrow> nat \<Rightarrow> nat \<Rightarrow> int \<Rightarrow> int \<Rightarrow> 'a list option" where
  "matrix_vector_product_omp a b c m n nthreads threadid =
     (case omp_bounds m nthreads threadid of
        None \<Rightarrow> None
      | Some (lb, ub) \<Rightarrow> omp_loop a b c n lb ub)"

text \<open>
  \<open>run_parallel\<close> (lines 73--87) starts \<open>k\<close> threads, thread \<open>i\<close> running
  \<open>matrix_vector_product_omp(a, b, c, m, n, k, i)\<close>, and joins them. A thread reads \<open>a\<close>
  and \<open>b\<close>, which no thread writes, and reads and writes the rows of \<open>c\<close> in its own range
  only; the calls are taken one after the other, in the order \<open>ts\<close>.
\<close>

fun run_threads ::
    "'a::{zero,plus,times} list \<Rightarrow> 'a list \<Rightarrow> 'a list \<Rightarrow> nat \<Rightarrow> nat \<Rightarrow> int \<Rightarrow> int list \<Rightarrow> 'a list option" where
  "run_threads a b c m n k [] = Some c"
| "run_threads a b c m n k (t # ts) =
     (case matrix_vector_product_omp a b c m n k t of
        None \<Rightarrow> None
      | Some c' \<Rightarrow> run_threads a b c' m n k ts)"

text \<open>
  The value the loops leave in row \<open>i\<close>, and the array after the rows from \<open>l\<close> up to,
  not including, \<open>h\<close> have been computed.
\<close>

definition row_sum :: "'a::{zero,plus,times} list \<Rightarrow> 'a list \<Rightarrow> nat \<Rightarrow> nat \<Rightarrow> 'a" where
  "row_sum a b n i = foldl (\<lambda>acc j. acc + a ! (i * n + j) * b ! j) 0 [0..<n]"

definition fill_rows :: "'a::{zero,plus,times} list \<Rightarrow> 'a list \<Rightarrow> nat \<Rightarrow> 'a list \<Rightarrow> nat \<Rightarrow> nat \<Rightarrow> 'a list" where
  "fill_rows a b n c l h = map (\<lambda>r. if l \<le> r \<and> r < h then row_sum a b n r else c ! r) [0..<length c]"

text \<open>
  The rows of thread \<open>t\<close> among \<open>k\<close> threads, as natural numbers: from \<open>lo\<close> up to, not
  including, \<open>hi\<close>.
\<close>

definition lo :: "nat \<Rightarrow> int \<Rightarrow> int \<Rightarrow> nat" where
  "lo m k t = nat t * (m div nat k)"

definition hi :: "nat \<Rightarrow> int \<Rightarrow> int \<Rightarrow> nat" where
  "hi m k t = (if t = k - 1 then m else nat t * (m div nat k) + m div nat k)"

section \<open>Properties of the task server\<close>

subsection \<open>Runs\<close>

lemmas thread_defs = server_thread_def set_pc_def exit_thread_def request_stop_def Let_def

lemmas sys_defs = step_def client_step_def server_thread_def start_def start_join_def stop_def
  stop_notify_def alloc_id_def insert_task_def add_task_def request_result_def wake_def
  notify_all_def notify_one_def submit_def
  set_pc_def exit_thread_def request_stop_def new_thread_def init_def execute_def get_result_def
  any_cast_def TaskWrapper_def Let_def

lemma issues_append: "issues (xs @ ys) = issues xs @ issues ys"
  by (induction xs rule: issues.induct) simp_all

lemma pushes_append: "pushes (xs @ ys) = pushes xs @ pushes ys"
  by (induction xs rule: pushes.induct) simp_all

lemma pops_append: "pops (xs @ ys) = pops xs @ pops ys"
  by (induction xs rule: pops.induct) simp_all

lemma pops_of_append: "pops_of i (xs @ ys) = pops_of i xs @ pops_of i ys"
  by (induction i xs rule: pops_of.induct) simp_all

lemma execs_append: "execs (xs @ ys) = execs xs @ execs ys"
  by (induction xs rule: execs.induct) simp_all

lemma execs_of_append: "execs_of i (xs @ ys) = execs_of i xs @ execs_of i ys"
  by (induction i xs rule: execs_of.induct) simp_all

lemma run_Cons:
  "fst (run (a # acts) s) = fst (step a s) @ fst (run acts (snd (step a s)))"
  "snd (run (a # acts) s) = snd (run acts (snd (step a s)))"
  by (simp_all add: split_beta)

declare run.simps(2) [simp del]

lemma run_append:
  "fst (run (xs @ ys) s) = fst (run xs s) @ fst (run ys (snd (run xs s)))"
  "snd (run (xs @ ys) s) = snd (run ys (snd (run xs s)))"
  by (induction xs arbitrary: s) (simp_all add: run_Cons)

lemma run_terminated: "terminated s \<Longrightarrow> run acts s = ([], s)"
  by (induction acts) (simp_all add: run.simps step_def)

lemma request_stop_thread:
  "pc (threads (request_stop j s) ! i) = pc (threads s ! i)"
  "task_id (threads (request_stop j s) ! i) = task_id (threads s ! i)"
  "length (threads (request_stop j s)) = length (threads s)"
proof -
  show "length (threads (request_stop j s)) = length (threads s)"
    by (simp add: request_stop_def)
  show "pc (threads (request_stop j s) ! i) = pc (threads s ! i)"
    by (cases "j < length (threads s)") (simp_all add: request_stop_def nth_list_update not_less list_update_beyond)
  show "task_id (threads (request_stop j s) ! i) = task_id (threads s ! i)"
    by (cases "j < length (threads s)") (simp_all add: request_stop_def nth_list_update not_less list_update_beyond)
qed

lemma request_stop_fields:
  "tasks (request_stop j s) = tasks s"
  "results (request_stop j s) = results s"
  "mut (request_stop j s) = mut s"
  "nextid (request_stop j s) = nextid s"
  "server_t (request_stop j s) = server_t s"
  "terminated (request_stop j s) = terminated s"
  "clients (request_stop j s) = clients s"
  "calling (request_stop j s) = calling s"
  by (simp_all add: request_stop_def)

text \<open>
  A wake-up changes nothing but the place of threads that were blocked, which are put
  back before the test of the predicate.
\<close>

lemma wake_fields:
  "tasks (wake j s) = tasks s"
  "results (wake j s) = results s"
  "mut (wake j s) = mut s"
  "nextid (wake j s) = nextid s"
  "server_t (wake j s) = server_t s"
  "terminated (wake j s) = terminated s"
  "clients (wake j s) = clients s"
  "calling (wake j s) = calling s"
  "length (threads (wake j s)) = length (threads s)"
  by (simp_all add: wake_def set_pc_def)

lemma wake_thread:
  "task_id (threads (wake j s) ! i) = task_id (threads s ! i)"
  "stop_requested (threads (wake j s) ! i) = stop_requested (threads s ! i)"
  "pc (threads (wake j s) ! i)
     = (if i = j \<and> j < length (threads s) \<and> pc (threads s ! j) = Blocked then AtWait
        else pc (threads s ! i))"
  by (simp_all add: wake_def set_pc_def nth_list_update)

lemma notify_all_fields:
  "tasks (notify_all s) = tasks s"
  "results (notify_all s) = results s"
  "mut (notify_all s) = mut s"
  "nextid (notify_all s) = nextid s"
  "server_t (notify_all s) = server_t s"
  "terminated (notify_all s) = terminated s"
  "clients (notify_all s) = clients s"
  "calling (notify_all s) = calling s"
  "length (threads (notify_all s)) = length (threads s)"
  by (simp_all add: notify_all_def)

lemma notify_all_thread:
  assumes "i < length (threads s)"
  shows "task_id (threads (notify_all s) ! i) = task_id (threads s ! i)"
    and "stop_requested (threads (notify_all s) ! i) = stop_requested (threads s ! i)"
    and "pc (threads (notify_all s) ! i)
           = (if pc (threads s ! i) = Blocked then AtWait else pc (threads s ! i))"
  using assms by (simp_all add: notify_all_def)

lemma notify_one_Some: "notify_one j s = Some s' \<Longrightarrow> s' = wake j s"
  by (auto simp: notify_one_def wake_def split: if_splits)

lemma served_eq:
  "served = \<lparr>tasks = [],
              results = [0 \<mapsto> \<lparr>func = f_smthlse_int, args = (2, 2, 2), result = AnyInt 6, ready = True\<rparr>],
              mut = None, nextid = 1,
              threads = [\<lparr>pc = AtWhile, task_id = 0, stop_requested = False\<rparr>],
              server_t = Some 0, terminated = False, clients = Map.empty, calling = NoCall\<rparr>"
  by (simp add: served_def run_Cons sys_defs f_smthlse_int_def f_smthlse_def)

lemma queued_eq:
  "queued = \<lparr>tasks = [0],
              results = [0 \<mapsto> TaskWrapper f_smthlse_int (2, 2, 2)],
              mut = Some 0, nextid = 1,
              threads = [\<lparr>pc = AtPop, task_id = 0, stop_requested = False\<rparr>],
              server_t = Some 0, terminated = False, clients = Map.empty, calling = NoCall\<rparr>"
  by (simp add: queued_def run_Cons sys_defs)

lemma crashing_eq:
  "crashing = \<lparr>tasks = [1],
                results = [0 \<mapsto> TaskWrapper failing (0, 0, 0), 1 \<mapsto> TaskWrapper f_smthlse_int (2, 2, 2)],
                mut = None, nextid = 2,
                threads = [\<lparr>pc = AtExecute, task_id = 0, stop_requested = False\<rparr>],
                server_t = Some 0, terminated = False, clients = Map.empty, calling = NoCall\<rparr>"
  by (simp add: crashing_def run_Cons sys_defs)

lemma restarting_eq:
  "restarting = \<lparr>tasks = [], results = Map.empty, mut = None, nextid = 0,
                  threads = [\<lparr>pc = Blocked, task_id = 0, stop_requested = True\<rparr>, new_thread],
                  server_t = Some 0, terminated = False, clients = Map.empty,
                  calling = InStart 0 1\<rparr>"
  by (simp add: restarting_def run_Cons sys_defs)

text \<open>What the steps other than those of server threads, insertions and retrievals do.\<close>

lemma evolved_refl: "evolved s s"
  by (simp add: evolved_def)

lemma evolved_update:
  "evolved s (s'\<lparr>clients := c\<rparr>) = evolved s s'"
  "evolved s (s'\<lparr>calling := k\<rparr>) = evolved s s'"
  "evolved s (s'\<lparr>server_t := t\<rparr>) = evolved s s'"
  "evolved s (s'\<lparr>nextid := n\<rparr>) = evolved s s'"
  by (simp_all add: evolved_def)

lemma evolved_wake: "evolved s (wake j s)"
  by (simp add: evolved_def wake_fields wake_thread)

lemma evolved_notify_all: "evolved s (notify_all s)"
  by (simp add: evolved_def notify_all_fields notify_all_thread)

lemma evolved_request_stop: "evolved s (request_stop j s)"
proof (cases "j < length (threads s)")
  case True
  then show ?thesis
    by (simp add: evolved_def request_stop_fields request_stop_thread)
       (simp add: request_stop_def nth_list_update)
next
  case False
  then have "request_stop j s = s" by (simp add: request_stop_def not_less list_update_beyond)
  then show ?thesis by (simp add: evolved_refl)
qed

lemma evolved_start: "evolved s (start s)"
proof -
  let ?s1 = "s\<lparr>threads := threads s @ [new_thread]\<rparr>"
  have a: "evolved s ?s1"
    by (auto simp: evolved_def nth_append new_thread_def less_Suc_eq)
  have b: "evolved s (request_stop old ?s1)" for old
  proof -
    note r = evolved_request_stop [of ?s1 old]
    show ?thesis
      unfolding evolved_def
    proof (intro conjI allI impI)
      fix i assume i: "i < length (threads s)"
      then have i1: "i < length (threads ?s1)" by simp
      have e: "threads ?s1 ! i = threads s ! i" using i by (simp add: nth_append)
      from r i1 show "task_id (threads (request_stop old ?s1) ! i) = task_id (threads s ! i)"
        unfolding evolved_def e [symmetric] by blast
      from r i1 show "stop_requested (threads (request_stop old ?s1) ! i)"
        if "stop_requested (threads s ! i)"
        using that unfolding evolved_def e [symmetric] by blast
      from r i1 show "pc (threads (request_stop old ?s1) ! i) = pc (threads s ! i) \<or>
          pc (threads s ! i) = Blocked \<and> pc (threads (request_stop old ?s1) ! i) = AtWait"
        unfolding evolved_def e [symmetric] by blast
    next
      fix i assume "i < length (threads (request_stop old ?s1))" and "length (threads s) \<le> i"
      then have "i = length (threads s)" by (simp add: request_stop_thread)
      then show "pc (threads (request_stop old ?s1) ! i) = AtWhile"
        by (simp add: request_stop_thread new_thread_def)
    qed (simp_all add: request_stop_fields request_stop_thread)
  qed
  show ?thesis
    using a b by (simp add: start_def Let_def evolved_update split: option.splits)
qed

lemma step_quiet:
  assumes "quiet a"
  shows "evolved s (snd (step a s)) \<and> pushes (fst (step a s)) = [] \<and> pops (fst (step a s)) = [] \<and>
         execs (fst (step a s)) = []"
proof (cases "terminated s")
  case True
  then show ?thesis by (simp add: step_def evolved_refl)
next
  case False
  show ?thesis
  proof (cases a)
    case (Call c g y)
    then show ?thesis using False
      by (simp add: step_def alloc_id_def evolved_update evolved_refl)
  next
    case (Notify c j)
    then show ?thesis using False
      by (auto simp: step_def client_step_def evolved_update evolved_refl evolved_wake
          split: option.splits client.splits dest!: notify_one_Some)
  next
    case Start
    then show ?thesis using False by (simp add: step_def evolved_start evolved_refl)
  next
    case Join
    then show ?thesis using False
      by (simp add: step_def start_join_def evolved_update evolved_refl split: server_call.splits)
  next
    case Stop
    then show ?thesis using False
      by (simp add: step_def stop_def evolved_update evolved_request_stop evolved_refl
          split: option.splits)
  next
    case NotifyAll
    then show ?thesis using False
      by (simp add: step_def stop_notify_def evolved_update evolved_notify_all evolved_refl)
  next
    case (Spurious j)
    then show ?thesis using False by (simp add: step_def evolved_wake)
  qed (use assms in \<open>simp_all add: quiet_def\<close>)
qed

lemma quiet_events:
  "pushes es = [] \<Longrightarrow> pops es = [] \<Longrightarrow> execs es = [] \<Longrightarrow> pops_of i es = [] \<and> execs_of i es = []"
  by (induction es rule: issues.induct) (auto split: if_splits)

lemma step_insert:
  "step (Insert c) s = ([], s) \<or>
   (\<exists>tid f x. \<not> terminated s \<and> mut s = None \<and> clients s c = Some (Allocated tid f x) \<and>
      step (Insert c) s
        = ([Push tid], (insert_task tid f x s)\<lparr>clients := (clients s)(c \<mapsto> Pushed tid)\<rparr>))"
  by (auto simp: step_def client_step_def split: option.splits client.splits)

subsection \<open>The result of a task is the result of the call\<close>

lemma server_thread_holds_task:
  assumes "j < length (threads s)" and "holds_task tid f x s"
  shows "holds_task tid f x (snd (server_thread j s))"
proof (cases "pc (threads s ! j)")
  case AtExecute
  then show ?thesis using assms
    by (cases "results s (task_id (threads s ! j))")
       (auto simp: thread_defs holds_task_def execute_def split: sum.splits option.splits)
next
  case AtPop
  then show ?thesis using assms
    by (cases "tasks s") (auto simp: thread_defs holds_task_def)
qed (use assms in \<open>auto simp: thread_defs holds_task_def\<close>)

lemma action_cases:
  "quiet a \<or> (\<exists>j. a = Worker j) \<or> (\<exists>c. a = Insert c) \<or> (\<exists>T r. a = Request T r)"
  by (cases a) (simp_all add: quiet_def)

lemma evolved_holds_task: "evolved s s' \<Longrightarrow> holds_task tid f x s \<Longrightarrow> holds_task tid f x s'"
  by (simp add: evolved_def holds_task_def)

lemma step_holds_task:
  assumes "holds_task tid f x s" and "tid \<notin> set (pushes (fst (step a s)))"
  shows "holds_task tid f x (snd (step a s))"
proof -
  from action_cases [of a] consider "quiet a" | j where "a = Worker j" | c where "a = Insert c"
    | T r where "a = Request T r" by blast
  then show ?thesis
  proof cases
    case 1
    from step_quiet [OF this, of s] assms(1) show ?thesis by (blast intro: evolved_holds_task)
  next
    case 2
    then show ?thesis using assms server_thread_holds_task [of j s tid f x] by (simp add: step_def)
  next
    case 3
    from step_insert [of c s] assms show ?thesis unfolding 3
      by (auto simp: insert_task_def holds_task_def)
  next
    case 4
    then show ?thesis using assms
      by (auto simp: step_def request_result_def holds_task_def split: option.splits sum.splits)
  qed
qed

lemma run_holds_task:
  "holds_task tid f x s \<Longrightarrow> tid \<notin> set (pushes (fst (run acts s))) \<Longrightarrow>
   holds_task tid f x (snd (run acts s))"
proof (induction acts arbitrary: s)
  case Nil
  then show ?case by simp
next
  case (Cons a acts)
  then show ?case by (simp add: run_Cons pushes_append step_holds_task)
qed

lemma insert_task_holds_task: "holds_task tid f x (insert_task tid f x s)"
  by (simp add: insert_task_def holds_task_def TaskWrapper_def)

lemma add_task_holds_task: "holds_task (fst (add_task f x s)) f x (snd (add_task f x s))"
  by (simp add: add_task_def insert_task_holds_task)

lemma holds_task_returned:
  assumes "holds_task tid f x s" and "fst (request_result T tid s) = Returned v"
  shows "f x = Inr v"
  using assms
  by (auto simp: holds_task_def request_result_def get_result_def any_cast_def
      split: option.splits sum.splits if_splits)

lemma serve_once_absent:
  assumes "idle i s" and "tasks s = y # q" and "results s y = None"
  shows "idle i (snd (run (serve i) s)) \<and> tasks (snd (run (serve i) s)) = q \<and>
         results (snd (run (serve i) s)) = results s"
  using assms
  by (simp add: serve_def run_Cons step_def thread_defs idle_def)

lemma serve_once_present:
  assumes "idle i s" and "tasks s = y # q" and "results s y = Some t" and "func t (args t) = Inr v"
  shows "idle i (snd (run (serve i) s)) \<and> tasks (snd (run (serve i) s)) = q \<and>
         results (snd (run (serve i) s)) = (results s)(y \<mapsto> t\<lparr>result := v, ready := True\<rparr>)"
  using assms
  by (simp add: serve_def run_Cons step_def thread_defs idle_def execute_def)

lemma serve_once:
  assumes "idle i s" and "harmless s" and "awaited tid f x v s" and "f x = Inr v"
    and "tasks s = y # q"
  shows "idle i (snd (run (serve i) s)) \<and> harmless (snd (run (serve i) s)) \<and>
         awaited tid f x v (snd (run (serve i) s)) \<and> tasks (snd (run (serve i) s)) = q"
proof (cases "results s y")
  case None
  from serve_once_absent [OF assms(1) assms(5) None] assms(2,3,5) None show ?thesis
    by (auto simp: harmless_def awaited_def)
next
  case (Some t0)
  with assms(2,5) obtain v0 where v0: "func t0 (args t0) = Inr v0"
    by (auto simp: harmless_def)
  from serve_once_present [OF assms(1) assms(5) Some v0] assms(2,3,4,5) Some v0 show ?thesis
    by (auto simp: harmless_def awaited_def)
qed

lemma drain:
  assumes "f x = Inr v"
  shows "idle i s \<Longrightarrow> harmless s \<Longrightarrow> awaited tid f x v s \<Longrightarrow> length (tasks s) = n \<Longrightarrow>
         awaited tid f x v (snd (run (concat (replicate n (serve i))) s)) \<and>
         tasks (snd (run (concat (replicate n (serve i))) s)) = []"
proof (induction n arbitrary: s)
  case 0
  then show ?case by simp
next
  case (Suc n)
  then obtain y q where yq: "tasks s = y # q" by (cases "tasks s") auto
  note once = serve_once [OF Suc.prems(1,2,3) assms yq]
  have "length (tasks (snd (run (serve i) s))) = n" using once yq Suc.prems(4) by simp
  with Suc.IH [of "snd (run (serve i) s)"] once show ?case
    by (simp add: run_append)
qed

lemma add_task_ready_to_serve:
  assumes "idle i s" and "harmless s" and "f x = Inr v"
  shows "idle i (snd (add_task f x s)) \<and> harmless (snd (add_task f x s)) \<and>
         awaited (fst (add_task f x s)) f x v (snd (add_task f x s))"
  using assms
  by (auto simp: add_task_def alloc_id_def insert_task_def idle_def harmless_def awaited_def
        TaskWrapper_def)

lemma awaited_request:
  assumes "awaited tid f x v s" and "tasks s = []" and "v \<noteq> AnyEmpty"
  shows "fst (request_result (any_type v) tid s) = Returned v"
  using assms by (auto simp: awaited_def request_result_def get_result_def any_cast_def)

text \<open>
  The first part of the claim below holds as well for a call of \<open>add_task\<close> that other
  threads interrupt between line 123 and the critical section: it needs only that the
  critical section has stored the task under \<open>tid\<close>.
\<close>

lemma inserted_result_is_call_result:
  assumes "tid \<notin> set (pushes (fst (run acts (insert_task tid f x s))))"
    and "fst (request_result T tid (snd (run acts (insert_task tid f x s)))) = Returned r"
  shows "f x = Inr r"
  using run_holds_task [OF insert_task_holds_task assms(1)] assms(2) by (rule holds_task_returned)

text \<open>
  Claim C1. A task is submitted with \<open>add_task f x\<close> and gets the id \<open>tid\<close>. Whatever the
  threads do afterwards (\<open>acts\<close> is any interleaving of steps of server threads, further
  submissions, retrievals, notifications, \<open>start\<close> and \<open>stop\<close>), as long as the id is not
  pushed again, a
  \<open>request_result\<close> for \<open>tid\<close> that returns a value returns the value of \<open>f x\<close>. And
  the value is obtained: when a server thread \<open>i\<close> is running at the head of its loop and
  no task queued before throws, then after one turn of its loop per queued task
  \<open>request_result\<close> with the type of the value returns it.
\<close>

theorem submitted_result_is_call_result:
  assumes "add_task f x s = (tid, s1)"
  shows "(tid \<notin> set (pushes (fst (run acts s1))) \<and>
            fst (request_result T tid (snd (run acts s1))) = Returned r \<longrightarrow> f x = Inr r) \<and>
         (idle i s \<and> harmless s \<and> f x = Inr v \<and> v \<noteq> AnyEmpty \<longrightarrow>
            fst (request_result (any_type v) tid
                  (snd (run (concat (replicate (length (tasks s1)) (serve i))) s1))) = Returned v)"
proof -
  have eqs: "tid = fst (add_task f x s)" "s1 = snd (add_task f x s)" using assms by simp_all
  have safe: "f x = Inr r"
    if "tid \<notin> set (pushes (fst (run acts s1)))"
      and "fst (request_result T tid (snd (run acts s1))) = Returned r"
  proof -
    have "holds_task tid f x s1" unfolding eqs by (rule add_task_holds_task)
    from run_holds_task [OF this that(1)] that(2) show ?thesis by (rule holds_task_returned)
  qed
  have live: "fst (request_result (any_type v) tid
                  (snd (run (concat (replicate (length (tasks s1)) (serve i))) s1))) = Returned v"
    if "idle i s" and "harmless s" and "f x = Inr v" and "v \<noteq> AnyEmpty"
  proof -
    from add_task_ready_to_serve [of i s f x v] that(1,2,3)
    have "idle i s1" and "harmless s1" and "awaited tid f x v s1" unfolding eqs by simp_all
    from drain [of f x v i s1 tid "length (tasks s1)"] that(3) this
    have "awaited tid f x v (snd (run (concat (replicate (length (tasks s1)) (serve i))) s1))"
      and "tasks (snd (run (concat (replicate (length (tasks s1)) (serve i))) s1)) = []"
      by simp_all
    then show ?thesis using that(4) by (rule awaited_request)
  qed
  from safe live show ?thesis by blast
qed

theorem submitted_result_is_call_result_witness:
  "add_task f_smthlse_int (2, 2, 2) (start init)
     = (0, snd (add_task f_smthlse_int (2, 2, 2) (start init))) \<and>
   idle 0 (start init :: int3 sys) \<and> harmless (start init :: int3 sys) \<and>
   f_smthlse_int (2, 2, 2) = Inr (AnyInt 6) \<and>
   0 \<notin> set (pushes (fst (run (serve 0) (snd (add_task f_smthlse_int (2, 2, 2) (start init)))))) \<and>
   fst (request_result TInt 0
          (snd (run (serve 0) (snd (add_task f_smthlse_int (2, 2, 2) (start init))))))
     = Returned (AnyInt 6)"
proof -
  let ?s = "start init :: int3 sys"
  let ?s1 = "snd (add_task f_smthlse_int (2, 2, 2) ?s)"
  have h1: "add_task f_smthlse_int (2, 2, 2) ?s = (0, ?s1)"
    by (simp add: sys_defs)
  have h2: "idle 0 ?s \<and> harmless ?s \<and> f_smthlse_int (2, 2, 2) = Inr (AnyInt 6) \<and> AnyInt 6 \<noteq> AnyEmpty"
    by (simp add: idle_def harmless_def sys_defs f_smthlse_int_def f_smthlse_def)
  have h3: "length (tasks ?s1) = 1"
    by (simp add: sys_defs)
  have h4: "0 \<notin> set (pushes (fst (run (serve 0) ?s1)))"
    by (simp add: serve_def run_Cons sys_defs f_smthlse_int_def f_smthlse_def)
  from submitted_result_is_call_result [OF h1, of "serve 0" TInt "AnyInt 6" 0 "AnyInt 6"] h2
  have "fst (request_result (any_type (AnyInt 6)) 0
              (snd (run (concat (replicate (length (tasks ?s1)) (serve 0))) ?s1))) = Returned (AnyInt 6)"
    by blast
  then have "fst (request_result TInt 0 (snd (run (serve 0) ?s1))) = Returned (AnyInt 6)"
    by (simp add: h3)
  with h1 h2 h4 show ?thesis by simp
qed

subsection \<open>Order of execution\<close>

lemma server_thread_queue:
  "pops (fst (server_thread i s)) @ tasks (snd (server_thread i s)) = tasks s @ pushes (fst (server_thread i s))"
  by (simp add: thread_defs split: pc.splits list.splits option.splits sum.splits)

lemma step_queue:
  "pops (fst (step a s)) @ tasks (snd (step a s)) = tasks s @ pushes (fst (step a s))"
proof -
  from action_cases [of a] consider "quiet a" | j where "a = Worker j" | c where "a = Insert c"
    | T r where "a = Request T r" by blast
  then show ?thesis
  proof cases
    case 1
    from step_quiet [OF this, of s] show ?thesis by (simp add: evolved_def)
  next
    case 2
    then show ?thesis by (simp add: step_def server_thread_queue)
  next
    case 3
    from step_insert [of c s] show ?thesis unfolding 3 by (auto simp: insert_task_def)
  next
    case 4
    then show ?thesis
      by (simp add: step_def request_result_def split: option.splits sum.splits)
  qed
qed

lemma run_queue:
  "pops (fst (run acts s)) @ tasks (snd (run acts s)) = tasks s @ pushes (fst (run acts s))"
proof (induction acts arbitrary: s)
  case Nil
  show ?case by simp
next
  case (Cons a acts)
  have "pops (fst (run (a # acts) s)) @ tasks (snd (run (a # acts) s))
      = pops (fst (step a s)) @ (pops (fst (run acts (snd (step a s)))) @ tasks (snd (run acts (snd (step a s)))))"
    by (simp add: run_Cons pops_append)
  also have "\<dots> = pops (fst (step a s)) @ tasks (snd (step a s)) @ pushes (fst (run acts (snd (step a s))))"
    by (simp add: Cons.IH)
  also have "\<dots> = tasks s @ pushes (fst (step a s)) @ pushes (fst (run acts (snd (step a s))))"
    using step_queue [of a s] by simp
  finally show ?case by (simp add: run_Cons pushes_append)
qed

lemma server_thread_inflight:
  assumes "j < length (threads s)" and "\<not> terminated s"
  shows "subseq (execs_of i (fst (server_thread j s)) @ inflight i (snd (server_thread j s)))
          (inflight i s @ pops_of i (fst (server_thread j s)))"
proof (cases "pc (threads s ! j)")
  case AtWhile
  then show ?thesis using assms by (auto simp: thread_defs inflight_def nth_list_update)
next
  case AtWait
  then show ?thesis using assms by (auto simp: thread_defs inflight_def nth_list_update)
next
  case AtStopCheck
  then show ?thesis using assms by (auto simp: thread_defs inflight_def nth_list_update)
next
  case AtPop
  then show ?thesis using assms
    by (cases "tasks s") (auto simp: thread_defs inflight_def nth_list_update)
next
  case AtExecute
  then show ?thesis using assms
    by (cases "results s (task_id (threads s ! j))")
       (auto simp: thread_defs inflight_def nth_list_update split: sum.splits)
next
  case Blocking
  then show ?thesis using assms by (auto simp: thread_defs inflight_def nth_list_update)
next
  case Blocked
  then show ?thesis by (auto simp: thread_defs inflight_def)
next
  case Exited
  then show ?thesis by (auto simp: thread_defs inflight_def)
qed

lemma evolved_inflight: "evolved s s' \<Longrightarrow> inflight i s' = inflight i s"
proof -
  assume e: "evolved s s'"
  show ?thesis
  proof (cases "i < length (threads s)")
    case True
    with e have "i < length (threads s')"
      and "task_id (threads s' ! i) = task_id (threads s ! i)"
      and "pc (threads s' ! i) = pc (threads s ! i) \<or>
           pc (threads s ! i) = Blocked \<and> pc (threads s' ! i) = AtWait"
      and "terminated s' = terminated s"
      by (auto simp: evolved_def)
    with True show ?thesis by (auto simp: inflight_def)
  next
    case False
    with e have "i < length (threads s') \<longrightarrow> pc (threads s' ! i) = AtWhile"
      by (auto simp: evolved_def)
    with False show ?thesis by (auto simp: inflight_def)
  qed
qed

lemma step_inflight:
  "subseq (execs_of i (fst (step a s)) @ inflight i (snd (step a s)))
          (inflight i s @ pops_of i (fst (step a s)))"
proof (cases "terminated s")
  case True
  then show ?thesis by (simp add: step_def)
next
  case False
  from action_cases [of a] consider "quiet a" | j where "a = Worker j" | c where "a = Insert c"
    | T r where "a = Request T r" by blast
  then show ?thesis
  proof cases
    case 1
    from step_quiet [OF this, of s]
    have "inflight i (snd (step a s)) = inflight i s"
      and "pops_of i (fst (step a s)) = [] \<and> execs_of i (fst (step a s)) = []"
      by (simp_all add: evolved_inflight quiet_events)
    then show ?thesis by simp
  next
    case 2
    then show ?thesis using False server_thread_inflight [of j s i] by (simp add: step_def)
  next
    case 3
    from step_insert [of c s] show ?thesis unfolding 3
      by (auto simp: insert_task_def inflight_def)
  next
    case 4
    then show ?thesis using False
      by (simp add: step_def request_result_def inflight_def split: option.splits sum.splits)
  qed
qed

lemma run_inflight:
  "subseq (execs_of i (fst (run acts s)) @ inflight i (snd (run acts s)))
          (inflight i s @ pops_of i (fst (run acts s)))"
proof (induction acts arbitrary: s)
  case Nil
  show ?case by simp
next
  case (Cons a acts)
  let ?s1 = "snd (step a s)"
  let ?e1 = "fst (step a s)"
  let ?e2 = "fst (run acts ?s1)"
  let ?s2 = "snd (run acts ?s1)"
  have "subseq (execs_of i ?e1 @ (execs_of i ?e2 @ inflight i ?s2))
               (execs_of i ?e1 @ (inflight i ?s1 @ pops_of i ?e2))"
    by (rule list_emb_append_mono) (simp_all add: Cons.IH)
  moreover have "subseq ((execs_of i ?e1 @ inflight i ?s1) @ pops_of i ?e2)
                        ((inflight i s @ pops_of i ?e1) @ pops_of i ?e2)"
    by (rule list_emb_append_mono) (simp_all add: step_inflight)
  ultimately have "subseq (execs_of i ?e1 @ execs_of i ?e2 @ inflight i ?s2)
                          (inflight i s @ pops_of i ?e1 @ pops_of i ?e2)"
    using subseq_order.order_trans by fastforce
  then show ?case by (simp add: run_Cons execs_of_append pops_of_append)
qed

lemma pops_of_subseq: "subseq (pops_of i es) (pops es)"
  by (induction i es rule: pops_of.induct) auto

text \<open>When one server thread alone takes steps, every pop and every execution is its own.\<close>

lemma server_thread_own_events:
  "pops (fst (server_thread i s)) = pops_of i (fst (server_thread i s)) \<and>
   execs (fst (server_thread i s)) = execs_of i (fst (server_thread i s))"
  by (simp add: thread_defs split: pc.splits list.splits option.splits sum.splits)

lemma step_own_events:
  assumes "\<And>j. a = Worker j \<Longrightarrow> j = i"
  shows "pops (fst (step a s)) = pops_of i (fst (step a s)) \<and>
         execs (fst (step a s)) = execs_of i (fst (step a s))"
proof -
  from action_cases [of a] consider "quiet a" | j where "a = Worker j" | c where "a = Insert c"
    | T r where "a = Request T r" by blast
  then show ?thesis
  proof cases
    case 1
    from step_quiet [OF this, of s] show ?thesis by (simp add: quiet_events)
  next
    case 2
    with assms have "a = Worker i" by simp
    then show ?thesis by (simp add: step_def server_thread_own_events)
  next
    case 3
    from step_insert [of c s] show ?thesis unfolding 3 by auto
  next
    case 4
    then show ?thesis by (simp add: step_def)
  qed
qed

lemma run_own_events:
  "only_worker i acts \<Longrightarrow>
   pops (fst (run acts s)) = pops_of i (fst (run acts s)) \<and>
   execs (fst (run acts s)) = execs_of i (fst (run acts s))"
proof (induction acts arbitrary: s)
  case Nil
  show ?case by simp
next
  case (Cons a acts)
  then have "\<And>j. a = Worker j \<Longrightarrow> j = i" and "only_worker i acts"
    by (auto simp: only_worker_def)
  from step_own_events [of a i s, OF this(1)] Cons.IH [OF this(2), of "snd (step a s)"]
  show ?case
    by (simp add: run_Cons pops_append pops_of_append execs_append execs_of_append)
qed

text \<open>
  One turn of the loop of an idle server thread pops the id at the front of the queue and
  executes its task; a turn per queued id executes them all, in the order of the queue.
\<close>

lemma serve_once_events:
  assumes "idle i s" and "tasks s = y # q" and "results s y = Some t" and "func t (args t) = Inr v"
  shows "fst (run (serve i) s) = [Pop i y, Exec i y]"
  using assms
  by (simp add: serve_def run_Cons step_def thread_defs idle_def execute_def)

lemma drain_execs:
  "idle i s \<Longrightarrow> harmless s \<Longrightarrow> registered s \<Longrightarrow> length (tasks s) = n \<Longrightarrow>
   execs (fst (run (concat (replicate n (serve i))) s)) = tasks s \<and>
   pops (fst (run (concat (replicate n (serve i))) s)) = tasks s"
proof (induction n arbitrary: s)
  case 0
  then show ?case by simp
next
  case (Suc n)
  then obtain y q where yq: "tasks s = y # q" by (cases "tasks s") auto
  with Suc.prems(3) obtain t where t: "results s y = Some t" by (auto simp: registered_def)
  with Suc.prems(2) yq obtain v where v: "func t (args t) = Inr v" by (auto simp: harmless_def)
  let ?s1 = "snd (run (serve i) s)"
  note once = serve_once_present [OF Suc.prems(1) yq t v]
  have h: "harmless ?s1" using once Suc.prems(2) yq t v by (auto simp: harmless_def)
  have r: "registered ?s1" using once Suc.prems(3) yq
    by (auto simp: registered_def list_all_iff)
  have l: "length (tasks ?s1) = n" using once yq Suc.prems(4) by simp
  from Suc.IH [OF _ h r l] once serve_once_events [OF Suc.prems(1) yq t v] yq
  show ?case by (simp add: run_append execs_append pops_append)
qed

text \<open>Calls of \<open>add_task\<close> made one after the other by one thread, while no server thread moves.\<close>

lemma none_blocked_notify_one: "none_blocked s \<Longrightarrow> notify_one j s = Some s"
  by (auto simp: none_blocked_def notify_one_def list_ex_iff)

lemma submit_once:
  assumes "idle i s" and "harmless s" and "registered s" and "clients s c = None"
    and "none_blocked s" and "f x = Inr v"
  shows "fst (run (submit c f x j) s) = [Issue (nextid s), Push (nextid s)] \<and>
         tasks (snd (run (submit c f x j) s)) = tasks s @ [nextid s] \<and>
         idle i (snd (run (submit c f x j) s)) \<and> harmless (snd (run (submit c f x j) s)) \<and>
         registered (snd (run (submit c f x j) s)) \<and> clients (snd (run (submit c f x j) s)) c = None \<and>
         none_blocked (snd (run (submit c f x j) s))"
proof -
  let ?s2 = "(insert_task (nextid s) f x (s\<lparr>nextid := nextid s + 1\<rparr>))
               \<lparr>clients := (clients s)(c \<mapsto> Pushed (nextid s))\<rparr>"
  have nb: "none_blocked ?s2" using assms(5) by (simp add: none_blocked_def insert_task_def)
  have "step (Call c f x) s
      = ([Issue (nextid s)], s\<lparr>nextid := nextid s + 1, clients := (clients s)(c \<mapsto> Allocated (nextid s) f x)\<rparr>)"
    using assms(1,4) by (simp add: step_def alloc_id_def idle_def)
  moreover have "step (Insert c) (s\<lparr>nextid := nextid s + 1, clients := (clients s)(c \<mapsto> Allocated (nextid s) f x)\<rparr>)
      = ([Push (nextid s)], ?s2)"
    using assms(1) by (simp add: step_def client_step_def insert_task_def idle_def)
  moreover have "step (Notify c j) ?s2 = ([], ?s2\<lparr>clients := clients s\<rparr>)"
  proof -
    have "(clients s)(c := None) = clients s" using assms(4) by (simp add: fun_upd_idem)
    then show ?thesis
      using assms(1) none_blocked_notify_one [OF nb, of j]
      by (simp add: step_def client_step_def insert_task_def idle_def)
  qed
  ultimately have ev: "fst (run (submit c f x j) s) = [Issue (nextid s), Push (nextid s)]"
    and st: "snd (run (submit c f x j) s) = ?s2\<lparr>clients := clients s\<rparr>"
    by (simp_all add: submit_def run_Cons)
  show ?thesis unfolding ev st using assms
    by (auto simp: insert_task_def idle_def harmless_def registered_def none_blocked_def
          TaskWrapper_def list_all_iff)
qed

lemma submit_all_events:
  "idle i s \<Longrightarrow> harmless s \<Longrightarrow> registered s \<Longrightarrow> clients s c = None \<Longrightarrow> none_blocked s \<Longrightarrow>
   list_all (\<lambda>(f, x). \<exists>v. f x = Inr v) reqs \<Longrightarrow>
   issues (fst (run (submit_all c j reqs) s)) = pushes (fst (run (submit_all c j reqs) s)) \<and>
   length (pushes (fst (run (submit_all c j reqs) s))) = length reqs \<and>
   tasks (snd (run (submit_all c j reqs) s)) = tasks s @ pushes (fst (run (submit_all c j reqs) s)) \<and>
   idle i (snd (run (submit_all c j reqs) s)) \<and> harmless (snd (run (submit_all c j reqs) s)) \<and>
   registered (snd (run (submit_all c j reqs) s))"
proof (induction reqs arbitrary: s)
  case Nil
  then show ?case by (simp add: submit_all_def)
next
  case (Cons r reqs)
  obtain f x where r: "r = (f, x)" by (cases r)
  with Cons.prems(6) obtain v where v: "f x = Inr v" and rest: "list_all (\<lambda>(f, x). \<exists>v. f x = Inr v) reqs"
    by auto
  let ?s1 = "snd (run (submit c f x j) s)"
  note once = submit_once [of i s c f x v j, OF Cons.prems(1-5) v]
  have e: "submit_all c j (r # reqs) = submit c f x j @ submit_all c j reqs"
    by (simp add: submit_all_def r)
  from once have "idle i ?s1" "harmless ?s1" "registered ?s1" "clients ?s1 c = None" "none_blocked ?s1"
    by simp_all
  from Cons.IH [OF this rest] once show ?case
    by (simp add: e run_append issues_append pushes_append)
qed

text \<open>
  Claim C2. In every interleaving, the ids popped so far followed by the ids still queued
  are the ids that were queued at the beginning followed by the ids pushed since, in the
  order of the pushes: the queue is first in, first out, whatever the number of server
  threads. The tasks a server thread executes are the ids it popped, in the order in which
  it popped them (after the one it may have had in hand at the beginning). So when \<open>i\<close>
  is the only server thread that takes steps (the one Worker of the claim), the tasks are
  executed in the order in which their ids were pushed, none before an earlier one.

  And they are executed: with the server thread at the head of its loop, when client \<open>c\<close>
  calls \<open>add_task\<close> for the tasks of \<open>reqs\<close> one after the other (none of which throws),
  the ids are issued and pushed in the order of the calls, and a turn of the loop per
  queued id executes the tasks that were queued before, and then these, in exactly that
  order.
\<close>

theorem fifo_order:
  "pops (fst (run acts s)) @ tasks (snd (run acts s)) = tasks s @ pushes (fst (run acts s)) \<and>
   subseq (pops_of i (fst (run acts s))) (pops (fst (run acts s))) \<and>
   subseq (execs_of i (fst (run acts s))) (inflight i s @ pops_of i (fst (run acts s))) \<and>
   (only_worker i acts \<longrightarrow>
      subseq (execs (fst (run acts s))) (inflight i s @ pops (fst (run acts s)))) \<and>
   (idle i s \<and> harmless s \<and> registered s \<and> clients s c = None \<and> none_blocked s \<and>
    list_all (\<lambda>(f, x). \<exists>v. f x = Inr v) reqs \<longrightarrow>
      issues (fst (run (submit_all c j reqs) s)) = pushes (fst (run (submit_all c j reqs) s)) \<and>
      length (pushes (fst (run (submit_all c j reqs) s))) = length reqs \<and>
      execs (fst (run (concat (replicate (length (tasks (snd (run (submit_all c j reqs) s)))) (serve i)))
                    (snd (run (submit_all c j reqs) s))))
        = tasks s @ pushes (fst (run (submit_all c j reqs) s)))"
proof -
  have "subseq (execs_of i (fst (run acts s))) (execs_of i (fst (run acts s)) @ inflight i (snd (run acts s)))"
    by (rule list_emb_prefix) simp
  then have own: "subseq (execs_of i (fst (run acts s))) (inflight i s @ pops_of i (fst (run acts s)))"
    using run_inflight [of i acts s] subseq_order.order_trans by blast
  have single: "subseq (execs (fst (run acts s))) (inflight i s @ pops (fst (run acts s)))"
    if "only_worker i acts"
    using own run_own_events [OF that, of s] by simp
  have live: "issues (fst (run (submit_all c j reqs) s)) = pushes (fst (run (submit_all c j reqs) s)) \<and>
      length (pushes (fst (run (submit_all c j reqs) s))) = length reqs \<and>
      execs (fst (run (concat (replicate (length (tasks (snd (run (submit_all c j reqs) s)))) (serve i)))
                    (snd (run (submit_all c j reqs) s))))
        = tasks s @ pushes (fst (run (submit_all c j reqs) s))"
    if "idle i s" and "harmless s" and "registered s" and "clients s c = None" and "none_blocked s"
      and "list_all (\<lambda>(f, x). \<exists>v. f x = Inr v) reqs"
  proof -
    let ?s1 = "snd (run (submit_all c j reqs) s)"
    note sub = submit_all_events [OF that, of j]
    then have "idle i ?s1" "harmless ?s1" "registered ?s1" by simp_all
    from drain_execs [OF this refl] sub show ?thesis by simp
  qed
  from own single live show ?thesis
    using run_queue [of acts s] pops_of_subseq [of i "fst (run acts s)"] by blast
qed

theorem fifo_order_witness:
  "only_worker 0 ([Start, Worker 0] @ submit 0 f_smthlse_int (2, 2, 2) 0 @
                   [Worker 0, Worker 0, Worker 0] @ submit 1 f_smthlse_int (1, 2, 3) 0 @
                   [Worker 0, Worker 0, Worker 0, Worker 0, Worker 0, Worker 0, Worker 0]) \<and>
   execs (fst (run ([Start, Worker 0] @ submit 0 f_smthlse_int (2, 2, 2) 0 @
                   [Worker 0, Worker 0, Worker 0] @ submit 1 f_smthlse_int (1, 2, 3) 0 @
                   [Worker 0, Worker 0, Worker 0, Worker 0, Worker 0, Worker 0, Worker 0])
               (init :: int3 sys))) = [0, 1] \<and>
   subseq (execs (fst (run ([Start, Worker 0] @ submit 0 f_smthlse_int (2, 2, 2) 0 @
                   [Worker 0, Worker 0, Worker 0] @ submit 1 f_smthlse_int (1, 2, 3) 0 @
                   [Worker 0, Worker 0, Worker 0, Worker 0, Worker 0, Worker 0, Worker 0])
               (init :: int3 sys))))
     (inflight 0 (init :: int3 sys) @
      pops (fst (run ([Start, Worker 0] @ submit 0 f_smthlse_int (2, 2, 2) 0 @
                   [Worker 0, Worker 0, Worker 0] @ submit 1 f_smthlse_int (1, 2, 3) 0 @
                   [Worker 0, Worker 0, Worker 0, Worker 0, Worker 0, Worker 0, Worker 0])
               (init :: int3 sys)))) \<and>
   idle 0 (start init :: int3 sys) \<and> harmless (start init :: int3 sys) \<and>
   registered (start init :: int3 sys) \<and> clients (start init :: int3 sys) 0 = None \<and>
   none_blocked (start init :: int3 sys) \<and>
   pushes (fst (run (submit_all 0 0 [(f_smthlse_int, (2, 2, 2)), (f_smthlse_int, (1, 2, 3))])
                 (start init))) = [0, 1] \<and>
   execs (fst (run (concat (replicate 2 (serve 0)))
                 (snd (run (submit_all 0 0 [(f_smthlse_int, (2, 2, 2)), (f_smthlse_int, (1, 2, 3))])
                         (start init))))) = [0, 1]"
proof -
  let ?acts = "[Start, Worker 0] @ submit 0 f_smthlse_int (2, 2, 2) 0 @
                   [Worker 0, Worker 0, Worker 0] @ submit 1 f_smthlse_int (1, 2, 3) 0 @
                   [Worker 0, Worker 0, Worker 0, Worker 0, Worker 0, Worker 0, Worker 0]"
  let ?reqs = "[(f_smthlse_int, (2, 2, 2)), (f_smthlse_int, (1, 2, 3 :: 32 word))]"
  let ?s = "start init :: int3 sys"
  have a: "only_worker 0 ?acts" by (simp add: only_worker_def submit_def)
  have b: "execs (fst (run ?acts (init :: int3 sys))) = [0, 1]"
    by (simp add: run_Cons sys_defs f_smthlse_int_def)
  have h: "idle 0 ?s \<and> harmless ?s \<and> registered ?s \<and> clients ?s 0 = None \<and> none_blocked ?s \<and>
      list_all (\<lambda>(f, x). \<exists>v. f x = Inr v) ?reqs"
    by (simp add: idle_def harmless_def registered_def none_blocked_def sys_defs f_smthlse_int_def)
  have p: "pushes (fst (run (submit_all 0 0 ?reqs) ?s)) = [0, 1]"
    by (simp add: submit_all_def run_Cons sys_defs)
  have t: "length (tasks (snd (run (submit_all 0 0 ?reqs) ?s))) = 2"
    by (simp add: submit_all_def run_Cons sys_defs)
  from fifo_order [of ?acts "init :: int3 sys" 0 0 ?reqs 0] a
  have sq: "subseq (execs (fst (run ?acts (init :: int3 sys))))
          (inflight 0 (init :: int3 sys) @ pops (fst (run ?acts (init :: int3 sys))))"
    by blast
  from fifo_order [of "[]" ?s 0 0 ?reqs 0] h
  have "execs (fst (run (concat (replicate (length (tasks (snd (run (submit_all 0 0 ?reqs) ?s)))) (serve 0)))
                    (snd (run (submit_all 0 0 ?reqs) ?s))))
        = tasks ?s @ pushes (fst (run (submit_all 0 0 ?reqs) ?s))"
    by blast
  then have "execs (fst (run (concat (replicate 2 (serve 0))) (snd (run (submit_all 0 0 ?reqs) ?s)))) = [0, 1]"
    unfolding t p by (simp add: sys_defs)
  with a b sq h p show ?thesis by simp
qed

subsection \<open>A task that throws\<close>

text \<open>
  Claim C3 does not hold. The first task submitted throws. When the server thread calls
  \<open>execute\<close> on it the process is terminated: no outcome is stored for the task, and the
  task submitted after it is never executed, whatever runs afterwards.
\<close>

theorem throwing_task_ends_process:
  "terminated (snd (step (Worker 0) crashing)) \<and>
   results (snd (step (Worker 0) crashing)) 0 = Some (TaskWrapper failing (0, 0, 0)) \<and>
   run [Worker 0, Worker 0, Worker 0, Worker 0, Worker 0, Worker 0, Request TInt 1, Request TInt 0]
       (snd (step (Worker 0) crashing)) = ([], snd (step (Worker 0) crashing)) \<and>
   results (snd (step (Worker 0) crashing)) 1 = Some (TaskWrapper f_smthlse_int (2, 2, 2)) \<and>
   \<not> ready (TaskWrapper f_smthlse_int (2, 2, 2))"
proof -
  have t: "snd (step (Worker 0) crashing) = crashing\<lparr>terminated := True\<rparr>"
    by (simp add: crashing_eq step_def server_thread_def execute_def TaskWrapper_def failing_def)
  show ?thesis unfolding t
    by (simp add: run_terminated) (simp add: crashing_eq TaskWrapper_def)
qed

text \<open>
  Claim C3, amended. When a server thread calls \<open>execute\<close> on a task whose callable
  throws, the exception leaves \<open>server_thread\<close> and the process is terminated: the state
  is left as it was (nothing is written to the task), and no step of any thread follows.
\<close>

theorem throwing_task_terminates:
  assumes "\<not> terminated s" and "i < length (threads s)" and "pc (threads s ! i) = AtExecute"
    and "results s (task_id (threads s ! i)) = Some t" and "func t (args t) = Inl e"
  shows "step (Worker i) s = ([Exec i (task_id (threads s ! i))], s\<lparr>terminated := True\<rparr>) \<and>
         run acts (s\<lparr>terminated := True\<rparr>) = ([], s\<lparr>terminated := True\<rparr>)"
  using assms by (simp add: step_def server_thread_def execute_def run_terminated)

theorem throwing_task_terminates_witness:
  "\<not> terminated crashing \<and> 0 < length (threads crashing) \<and> pc (threads crashing ! 0) = AtExecute \<and>
   results crashing (task_id (threads crashing ! 0)) = Some (TaskWrapper failing (0, 0, 0)) \<and>
   func (TaskWrapper failing (0, 0, 0)) (args (TaskWrapper failing (0, 0, 0)))
     = Inl (Runtime_error ''task failed'') \<and>
   step (Worker 0) crashing = ([Exec 0 0], crashing\<lparr>terminated := True\<rparr>) \<and>
   run [Worker 0, Worker 0, Request TInt 1] (crashing\<lparr>terminated := True\<rparr>)
     = ([], crashing\<lparr>terminated := True\<rparr>)"
proof -
  have h: "\<not> terminated crashing" "0 < length (threads crashing)"
    "pc (threads crashing ! 0) = AtExecute"
    "results crashing (task_id (threads crashing ! 0)) = Some (TaskWrapper failing (0, 0, 0))"
    "func (TaskWrapper failing (0, 0, 0)) (args (TaskWrapper failing (0, 0, 0)))
       = Inl (Runtime_error ''task failed'')"
    by (simp_all add: crashing_eq TaskWrapper_def failing_def)
  have t: "task_id (threads crashing ! 0) = 0" by (simp add: crashing_eq)
  from throwing_task_terminates [OF h, of "[Worker 0, Worker 0, Request TInt 1]"] h t
  show ?thesis by simp
qed

subsection \<open>Retrieval\<close>

text \<open>
  Claim C4 does not hold. The task with id 0 has produced an \<open>int\<close>. Asked for a \<open>bool\<close>,
  \<open>request_result\<close> throws \<open>bad_any_cast\<close> and the entry stays in \<open>results\<close>, whereas a
  retrieval that succeeds removes it.
\<close>

theorem failed_retrieval_keeps_entry:
  "fst (request_result TBool 0 served) = Threw Bad_any_cast \<and>
   results (snd (request_result TBool 0 served)) 0 \<noteq> None \<and>
   fst (request_result TInt 0 served) = Returned (AnyInt 6) \<and>
   results (snd (request_result TInt 0 served)) 0 = None"
  by (simp add: served_eq request_result_def get_result_def any_cast_def)

text \<open>
  Claim C4, amended. A call of \<open>request_result\<close> that fails leaves the whole state as it
  was: the queue and \<open>results\<close> are unchanged, and the entry is not removed.
\<close>

theorem request_result_failure_keeps_state:
  "fst (request_result T tid s) = Threw e \<Longrightarrow> snd (request_result T tid s) = s"
  by (auto simp: request_result_def split: option.splits sum.splits)

theorem request_result_failure_keeps_state_witness:
  "fst (request_result TBool 0 served) = Threw Bad_any_cast \<and>
   snd (request_result TBool 0 served) = served"
proof -
  have h: "fst (request_result TBool 0 served) = Threw Bad_any_cast"
    by (simp add: served_eq request_result_def get_result_def any_cast_def)
  from request_result_failure_keeps_state [OF h] h show ?thesis by simp
qed

lemma request_result_not_found_iff:
  "fst (request_result T tid s) = Threw (Runtime_error ''Task ID not found'') \<longleftrightarrow> results s tid = None"
  by (auto simp: request_result_def any_cast_def split: option.splits sum.splits if_splits)

lemma request_result_twice:
  "fst (request_result T tid s) = Returned v \<Longrightarrow>
   request_result T' tid (snd (request_result T tid s))
     = (Threw (Runtime_error ''Task ID not found''), snd (request_result T tid s))"
  by (auto simp: request_result_def split: option.splits sum.splits)

lemma server_thread_results_dom:
  "j < length (threads s) \<Longrightarrow> results s tid = None \<Longrightarrow> results (snd (server_thread j s)) tid = None"
  by (cases "pc (threads s ! j)")
     (auto simp: thread_defs split: list.splits option.splits sum.splits)

lemma step_results_None:
  assumes "results s tid = None" and "tid \<notin> set (pushes (fst (step a s)))"
  shows "results (snd (step a s)) tid = None"
proof -
  from action_cases [of a] consider "quiet a" | j where "a = Worker j" | c where "a = Insert c"
    | T r where "a = Request T r" by blast
  then show ?thesis
  proof cases
    case 1
    from step_quiet [OF this, of s] assms(1) show ?thesis by (simp add: evolved_def)
  next
    case 2
    then show ?thesis using assms server_thread_results_dom [of j s tid] by (simp add: step_def)
  next
    case 3
    from step_insert [of c s] assms show ?thesis unfolding 3 by (auto simp: insert_task_def)
  next
    case 4
    then show ?thesis using assms
      by (auto simp: step_def request_result_def split: option.splits sum.splits)
  qed
qed

lemma run_results_None:
  "results s tid = None \<Longrightarrow> tid \<notin> set (pushes (fst (run acts s))) \<Longrightarrow>
   results (snd (run acts s)) tid = None"
proof (induction acts arbitrary: s)
  case Nil
  then show ?case by simp
next
  case (Cons a acts)
  then show ?case
    by (simp add: run_Cons pushes_append step_results_None)
qed

lemma server_thread_keeps_entry:
  "j < length (threads s) \<Longrightarrow> results s tid \<noteq> None \<Longrightarrow> results (snd (server_thread j s)) tid \<noteq> None"
  by (cases "pc (threads s ! j)")
     (auto simp: thread_defs split: list.splits option.splits sum.splits)

lemma step_removes_only_by_retrieval:
  assumes "results s tid \<noteq> None" and "results (snd (step a s)) tid = None"
  shows "\<exists>T v. a = Request T tid \<and> fst (request_result T tid s) = Returned v"
proof -
  from action_cases [of a] consider "quiet a" | j where "a = Worker j" | c where "a = Insert c"
    | T r where "a = Request T r" by blast
  then show ?thesis
  proof cases
    case 1
    from step_quiet [OF this, of s] assms show ?thesis by (simp add: evolved_def)
  next
    case 2
    then show ?thesis using assms server_thread_keeps_entry [of j s tid]
      by (auto simp: step_def split: if_splits)
  next
    case 3
    from step_insert [of c s] assms show ?thesis unfolding 3
      by (auto simp: insert_task_def split: if_splits)
  next
    case 4
    then show ?thesis using assms
      by (auto simp: step_def request_result_def split: option.splits sum.splits if_splits)
  qed
qed

text \<open>
  Claim C5. \<open>request_result\<close> throws "Task ID not found" exactly when \<open>results\<close> has no
  entry for the id. An id that no \<open>add_task\<close> has pushed since the program began (so
  every id that was never issued) has no entry, so the call fails at once (it does not block). After a retrieval that returned,
  a second call for the same id fails in that way. And an entry only ever disappears by a
  retrieval of its id that returns.
\<close>

theorem task_not_found_iff_absent:
  "(fst (request_result T tid (s :: 'a sys)) = Threw (Runtime_error ''Task ID not found'') \<longleftrightarrow> results s tid = None) \<and>
   (tid \<notin> set (pushes (fst (run acts init))) \<longrightarrow>
      request_result T tid (snd (run acts init))
        = (Threw (Runtime_error ''Task ID not found''), snd (run acts init))) \<and>
   (\<forall>v. fst (request_result T tid s) = Returned v \<longrightarrow>
      request_result T' tid (snd (request_result T tid s))
        = (Threw (Runtime_error ''Task ID not found''), snd (request_result T tid s))) \<and>
   (results s tid \<noteq> None \<and> results (snd (step a s)) tid = None \<longrightarrow>
      (\<exists>T v. a = Request T tid \<and> fst (request_result T tid s) = Returned v))"
proof -
  have "tid \<notin> set (pushes (fst (run acts init))) \<Longrightarrow>
      request_result T tid (snd (run acts init))
        = (Threw (Runtime_error ''Task ID not found''), snd (run acts init))"
  proof -
    assume "tid \<notin> set (pushes (fst (run acts init)))"
    then have "results (snd (run acts init)) tid = None"
      by (intro run_results_None) (simp_all add: init_def)
    then show ?thesis by (simp add: request_result_def)
  qed
  then show ?thesis
    using request_result_not_found_iff [of T tid s] request_result_twice [of T tid s _ T']
      step_removes_only_by_retrieval [of s tid a]
    by blast
qed

theorem task_not_found_iff_absent_witness:
  "fst (request_result TInt 0 served) = Returned (AnyInt 6) \<and>
   request_result TBool 0 (snd (request_result TInt 0 served))
     = (Threw (Runtime_error ''Task ID not found''), snd (request_result TInt 0 served)) \<and>
   7 \<notin> set (pushes (fst (run (Start # submit 0 f_smthlse_int (2, 2, 2) 0 @ [Worker 0]) init))) \<and>
   request_result TInt 7 (snd (run (Start # submit 0 f_smthlse_int (2, 2, 2) 0 @ [Worker 0]) init))
     = (Threw (Runtime_error ''Task ID not found''),
        snd (run (Start # submit 0 f_smthlse_int (2, 2, 2) 0 @ [Worker 0]) init)) \<and>
   results served 0 \<noteq> None \<and> results (snd (step (Request TInt 0) served)) 0 = None"
proof -
  have h1: "fst (request_result TInt 0 served) = Returned (AnyInt 6)"
    by (simp add: served_eq request_result_def get_result_def any_cast_def)
  have h2: "7 \<notin> set (pushes (fst (run (Start # submit 0 f_smthlse_int (2, 2, 2) 0 @ [Worker 0]) init)))"
    by (simp add: run_Cons sys_defs)
  have h3: "results served 0 \<noteq> None \<and> results (snd (step (Request TInt 0) served)) 0 = None"
    by (simp add: served_eq step_def request_result_def get_result_def any_cast_def)
  from task_not_found_iff_absent
         [where T = TInt and tid = 0 and s = served and T' = TBool and a = "Request TInt 0"] h1
  have a: "request_result TBool 0 (snd (request_result TInt 0 served))
     = (Threw (Runtime_error ''Task ID not found''), snd (request_result TInt 0 served))"
    by blast
  from task_not_found_iff_absent
         [where T = TInt and tid = 7 and s = served
            and acts = "(Start # submit 0 f_smthlse_int (2, 2, 2) 0 @ [Worker 0])"] h2
  have b: "request_result TInt 7 (snd (run (Start # submit 0 f_smthlse_int (2, 2, 2) 0 @ [Worker 0]) init))
     = (Threw (Runtime_error ''Task ID not found''),
        snd (run (Start # submit 0 f_smthlse_int (2, 2, 2) 0 @ [Worker 0]) init))"
    by blast
  from h1 a h2 b h3 show ?thesis by blast
qed

text \<open>
  Claim C6. When the task is ready and the type of the stored value is not the requested
  one, \<open>request_result\<close> throws \<open>bad_any_cast\<close> (and changes nothing); when the types
  agree it returns the stored value and removes the entry.
\<close>

theorem request_result_type_check:
  assumes "results s tid = Some t" and "ready t"
  shows "(any_type (result t) \<noteq> T \<longrightarrow> request_result T tid s = (Threw Bad_any_cast, s)) \<and>
         (any_type (result t) = T \<and> result t \<noteq> AnyEmpty \<longrightarrow>
            request_result T tid s = (Returned (result t), s\<lparr>results := (results s)(tid := None)\<rparr>))"
  using assms by (simp add: request_result_def get_result_def any_cast_def)

theorem request_result_type_check_witness:
  "results served 0
     = Some \<lparr>func = f_smthlse_int, args = (2, 2, 2), result = AnyInt 6, ready = True\<rparr> \<and>
   request_result TBool 0 served = (Threw Bad_any_cast, served) \<and>
   request_result TInt 0 served = (Returned (AnyInt 6), served\<lparr>results := (results served)(0 := None)\<rparr>)"
proof -
  let ?t = "\<lparr>func = f_smthlse_int, args = (2, 2, 2), result = AnyInt 6, ready = True\<rparr>"
  have h1: "results served 0 = Some ?t" by (simp add: served_eq)
  have h2: "ready ?t" by simp
  from request_result_type_check [OF h1 h2, of TBool] request_result_type_check [OF h1 h2, of TInt] h1
  show ?thesis by simp
qed

subsection \<open>Starting and stopping\<close>

text \<open>
  Claim C7 does not hold. \<open>start\<close> called twice: the second call starts a second server
  thread while the first one is still in its loop, and asks the first to stop; the
  process goes on, and \<open>start\<close> has no way to report an error.
\<close>

theorem second_start_spawns_second_thread:
  "server_t (start (init :: unit sys)) = Some 0 \<and>
   calling (start (init :: unit sys)) = NoCall \<and>
   length (threads (start (start (init :: unit sys)))) = 2 \<and>
   threads (start (start (init :: unit sys))) ! 1 = new_thread \<and>
   pc (threads (start (start (init :: unit sys))) ! 0) = AtWhile \<and>
   \<not> terminated (start (start (init :: unit sys)))"
  by (simp add: start_def request_stop_def Let_def init_def new_thread_def)

text \<open>A server thread moves no other thread, and does not touch \<open>calling\<close>.\<close>

lemma server_thread_others:
  assumes "j < length (threads s)"
  shows "calling (snd (server_thread j s)) = calling s \<and>
         length (threads (snd (server_thread j s))) = length (threads s) \<and>
         (i \<noteq> j \<longrightarrow> threads (snd (server_thread j s)) ! i = threads s ! i) \<and>
         (pc (threads s ! j) = Blocked \<longrightarrow> snd (server_thread j s) = s)"
  using assms
  by (cases "pc (threads s ! j)")
     (auto simp: thread_defs split: list.splits option.splits sum.splits)

lemma step_keeps_joining:
  assumes "calling s = InStart old n" and "old < length (threads s)"
    and "pc (threads s ! old) = Blocked"
    and "case a of Notify c j \<Rightarrow> False | NotifyAll \<Rightarrow> False | Spurious j \<Rightarrow> False | _ \<Rightarrow> True"
  shows "calling (snd (step a s)) = InStart old n \<and> old < length (threads (snd (step a s))) \<and>
         pc (threads (snd (step a s)) ! old) = Blocked"
proof (cases "terminated s")
  case True
  then show ?thesis using assms by (simp add: step_def)
next
  case False
  show ?thesis
  proof (cases a)
    case (Worker j)
    show ?thesis
    proof (cases "j < length (threads s)")
      case True
      from server_thread_others [OF True, of old] assms(1-3) show ?thesis
        unfolding Worker using False True by (cases "old = j") (auto simp: step_def)
    next
      case False
      then show ?thesis using assms by (simp add: Worker step_def)
    qed
  next
    case (Call c g y)
    then show ?thesis using False assms by (simp add: step_def alloc_id_def)
  next
    case (Insert c)
    from step_insert [of c s] assms show ?thesis unfolding Insert
      by (auto simp: insert_task_def)
  next
    case (Request T r)
    then show ?thesis using False assms
      by (simp add: step_def request_result_def split: option.splits sum.splits)
  next
    case Start
    then show ?thesis using False assms by (simp add: step_def)
  next
    case Join
    then show ?thesis using False assms by (simp add: step_def start_join_def)
  next
    case Stop
    then show ?thesis using False assms by (simp add: step_def)
  qed (use assms(4) in simp_all)
qed

lemma run_keeps_joining:
  "calling s = InStart old n \<Longrightarrow> old < length (threads s) \<Longrightarrow> pc (threads s ! old) = Blocked \<Longrightarrow>
   no_wake acts \<Longrightarrow>
   calling (snd (run acts s)) = InStart old n \<and> old < length (threads (snd (run acts s))) \<and>
   pc (threads (snd (run acts s)) ! old) = Blocked"
proof (induction acts arbitrary: s)
  case Nil
  then show ?case by simp
next
  case (Cons a acts)
  from Cons.prems(4) have a: "case a of Notify c j \<Rightarrow> False | NotifyAll \<Rightarrow> False
      | Spurious j \<Rightarrow> False | _ \<Rightarrow> True" and rest: "no_wake acts"
    by (simp_all add: no_wake_def)
  note st = step_keeps_joining [OF Cons.prems(1-3) a]
  from st have "calling (snd (step a s)) = InStart old n"
    and "old < length (threads (snd (step a s)))" and "pc (threads (snd (step a s)) ! old) = Blocked"
    by simp_all
  from Cons.IH [OF this rest] show ?case by (simp add: run_Cons)
qed

lemma start_joining:
  assumes "server_t s = Some old" and "old < length (threads s)"
  shows "calling (start s) = InStart old (length (threads s)) \<and> server_t (start s) = Some old \<and>
         threads (start s)
           = (threads s)[old := (threads s ! old)\<lparr>stop_requested := True\<rparr>] @ [new_thread]"
  using assms
  by (simp add: start_def Let_def request_stop_def list_update_append nth_append)

text \<open>
  Claim C7, amended. A call of \<open>start\<close> reports no error, whether or not a server thread
  is running: it starts a new server thread. When \<open>server_t\<close> owned no thread, it takes the
  new one and the call is over. When it owned one (\<open>start\<close> is called a second time), that
  thread is asked to stop and the caller waits to join it: the call ends, and \<open>server_t\<close>
  takes the new thread, only once the old thread has left \<open>server_thread\<close>. Nothing
  notifies the old thread: if it is blocked in the wait of line 77, then as long as no
  notification and no spurious wake-up comes, whatever else the threads do, it stays
  blocked and the call of \<open>start\<close> does not return.
\<close>

theorem second_start_joins_first:
  "length (threads (start s)) = Suc (length (threads s)) \<and>
   terminated (start s) = terminated s \<and>
   (server_t s = None \<longrightarrow>
      threads (start s) = threads s @ [new_thread] \<and>
      server_t (start s) = Some (length (threads s)) \<and> calling (start s) = calling s) \<and>
   (server_t s = Some old \<and> old < length (threads s) \<longrightarrow>
      threads (start s) = (threads s)[old := (threads s ! old)\<lparr>stop_requested := True\<rparr>] @ [new_thread] \<and>
      server_t (start s) = Some old \<and> calling (start s) = InStart old (length (threads s))) \<and>
   (calling s = InStart old n \<longrightarrow>
      start_join s = (if old < length (threads s) \<and> pc (threads s ! old) = Exited
                      then s\<lparr>server_t := Some n, calling := NoCall\<rparr> else s)) \<and>
   (server_t s = Some old \<and> old < length (threads s) \<and> pc (threads s ! old) = Blocked \<and>
    no_wake acts \<longrightarrow>
      calling (snd (run acts (start s))) = InStart old (length (threads s)) \<and>
      pc (threads (snd (run acts (start s))) ! old) = Blocked)"
proof -
  have "length (threads (start s)) = Suc (length (threads s))"
    by (simp add: start_def Let_def request_stop_thread split: option.splits)
  moreover have "terminated (start s) = terminated s"
    by (simp add: start_def Let_def request_stop_fields split: option.splits)
  moreover have "server_t s = None \<longrightarrow>
      threads (start s) = threads s @ [new_thread] \<and>
      server_t (start s) = Some (length (threads s)) \<and> calling (start s) = calling s"
    by (simp add: start_def Let_def)
  moreover have "calling s = InStart old n \<longrightarrow>
      start_join s = (if old < length (threads s) \<and> pc (threads s ! old) = Exited
                      then s\<lparr>server_t := Some n, calling := NoCall\<rparr> else s)"
    by (simp add: start_join_def)
  moreover have "calling (snd (run acts (start s))) = InStart old (length (threads s)) \<and>
      pc (threads (snd (run acts (start s))) ! old) = Blocked"
    if h: "server_t s = Some old" "old < length (threads s)" "pc (threads s ! old) = Blocked"
      and nw: "no_wake acts"
  proof -
    note j = start_joining [OF h(1,2)]
    have "old < length (threads (start s))" and "pc (threads (start s) ! old) = Blocked"
      using j h(2,3) by (simp_all add: nth_append)
    from run_keeps_joining [OF _ this nw, of "length (threads s)"] j show ?thesis by simp
  qed
  ultimately show ?thesis using start_joining [of s old] by blast
qed

theorem second_start_joins_first_witness:
  "restarting = start (snd (run [Start, Worker 0, Worker 0, Worker 0] init)) \<and>
   server_t (snd (run [Start, Worker 0, Worker 0, Worker 0] (init :: int3 sys))) = Some 0 \<and>
   pc (threads (snd (run [Start, Worker 0, Worker 0, Worker 0] (init :: int3 sys))) ! 0) = Blocked \<and>
   no_wake [Worker 0, Worker 1, Join, Call 0 f_smthlse_int (2, 2, 2), Insert 0, Worker 1, Request TInt 0,
            Worker 0, Join] \<and>
   calling (snd (run [Worker 0, Worker 1, Join, Call 0 f_smthlse_int (2, 2, 2), Insert 0, Worker 1,
                      Request TInt 0, Worker 0, Join] restarting)) = InStart 0 1 \<and>
   calling (snd (run [Call 0 f_smthlse_int (2, 2, 2), Insert 0, Notify 0 0, Worker 0, Worker 0, Join]
                   restarting)) = NoCall \<and>
   server_t (snd (run [Call 0 f_smthlse_int (2, 2, 2), Insert 0, Notify 0 0, Worker 0, Worker 0, Join]
                   restarting)) = Some 1"
proof -
  let ?s = "snd (run [Start, Worker 0, Worker 0, Worker 0] (init :: int3 sys))"
  let ?acts = "[Worker 0, Worker 1, Join, Call 0 f_smthlse_int (2, 2, 2), Insert 0, Worker 1,
                Request TInt 0, Worker 0, Join]"
  have r: "restarting = start ?s"
    by (simp add: restarting_def run_Cons step_def server_thread_def start_def set_pc_def
        init_def new_thread_def Let_def)
  have h: "server_t ?s = Some 0 \<and> 0 < length (threads ?s) \<and> pc (threads ?s ! 0) = Blocked \<and>
           length (threads ?s) = 1"
    by (simp add: run_Cons sys_defs)
  have n: "no_wake ?acts" by (simp add: no_wake_def)
  from second_start_joins_first [of ?s 0 _ ?acts] h n
  have "calling (snd (run ?acts (start ?s))) = InStart 0 1" by simp
  then have a: "calling (snd (run ?acts restarting)) = InStart 0 1" unfolding r .
  have b: "calling (snd (run [Call 0 f_smthlse_int (2, 2, 2), Insert 0, Notify 0 0, Worker 0, Worker 0, Join]
                   restarting)) = NoCall \<and>
      server_t (snd (run [Call 0 f_smthlse_int (2, 2, 2), Insert 0, Notify 0 0, Worker 0, Worker 0, Join]
                   restarting)) = Some 1"
    by (simp add: restarting_eq run_Cons sys_defs)
  from r h n a b show ?thesis by simp
qed

lemma server_thread_stopping:
  assumes "j < length (threads s)" and "\<not> terminated s" and "stopping i s"
  shows "stopping i (snd (server_thread j s)) \<and>
         length (pops_of i (fst (server_thread j s))) + pop_budget i (snd (server_thread j s)) \<le> pop_budget i s \<and>
         length (execs_of i (fst (server_thread j s))) + exec_budget i (snd (server_thread j s)) \<le> exec_budget i s"
proof (cases "pc (threads s ! j)")
  case AtWhile
  then show ?thesis using assms
    by (auto simp: thread_defs stopping_def pop_budget_def exec_budget_def nth_list_update)
next
  case AtWait
  then show ?thesis using assms
    by (auto simp: thread_defs stopping_def pop_budget_def exec_budget_def nth_list_update)
next
  case AtStopCheck
  then show ?thesis using assms
    by (auto simp: thread_defs stopping_def pop_budget_def exec_budget_def nth_list_update)
next
  case AtPop
  then show ?thesis using assms
    by (cases "tasks s")
       (auto simp: thread_defs stopping_def pop_budget_def exec_budget_def nth_list_update)
next
  case AtExecute
  then show ?thesis using assms
    by (cases "results s (task_id (threads s ! j))")
       (auto simp: thread_defs stopping_def pop_budget_def exec_budget_def nth_list_update
          split: sum.splits)
next
  case Blocking
  then show ?thesis using assms
    by (auto simp: thread_defs stopping_def pop_budget_def exec_budget_def nth_list_update)
next
  case Blocked
  then show ?thesis using assms
    by (auto simp: thread_defs stopping_def pop_budget_def exec_budget_def)
next
  case Exited
  then show ?thesis using assms
    by (auto simp: thread_defs stopping_def pop_budget_def exec_budget_def)
qed

lemma evolved_stopping:
  assumes "evolved s s'" and "stopping i s"
  shows "stopping i s' \<and> pop_budget i s' = pop_budget i s \<and> exec_budget i s' = exec_budget i s"
proof -
  from assms have i: "i < length (threads s)" and sr: "stop_requested (threads s ! i)"
    by (simp_all add: stopping_def)
  with assms(1) have "i < length (threads s')" and "stop_requested (threads s' ! i)"
    and "pc (threads s' ! i) = pc (threads s ! i) \<or>
         pc (threads s ! i) = Blocked \<and> pc (threads s' ! i) = AtWait"
    and "terminated s' = terminated s"
    by (auto simp: evolved_def)
  then show ?thesis by (auto simp: stopping_def pop_budget_def exec_budget_def)
qed

lemma step_stopping:
  assumes "stopping i s"
  shows "stopping i (snd (step a s)) \<and>
         length (pops_of i (fst (step a s))) + pop_budget i (snd (step a s)) \<le> pop_budget i s \<and>
         length (execs_of i (fst (step a s))) + exec_budget i (snd (step a s)) \<le> exec_budget i s"
proof (cases "terminated s")
  case True
  then show ?thesis using assms by (simp add: step_def)
next
  case False
  from action_cases [of a] consider "quiet a" | j where "a = Worker j" | c where "a = Insert c"
    | T r where "a = Request T r" by blast
  then show ?thesis
  proof cases
    case 1
    from step_quiet [OF this, of s]
    have "evolved s (snd (step a s))"
      and "pops_of i (fst (step a s)) = [] \<and> execs_of i (fst (step a s)) = []"
      by (simp_all add: quiet_events)
    with evolved_stopping [OF this(1) assms] show ?thesis by simp
  next
    case 2
    then show ?thesis using False assms server_thread_stopping [of j s i] by (simp add: step_def)
  next
    case 3
    from step_insert [of c s] assms show ?thesis unfolding 3
      by (auto simp: insert_task_def stopping_def pop_budget_def exec_budget_def)
  next
    case 4
    then show ?thesis using False assms
      by (simp add: step_def request_result_def stopping_def pop_budget_def exec_budget_def
          split: option.splits sum.splits)
  qed
qed

lemma run_stopping:
  "stopping i s \<Longrightarrow>
   length (pops_of i (fst (run acts s))) \<le> pop_budget i s \<and>
   length (execs_of i (fst (run acts s))) \<le> exec_budget i s"
proof (induction acts arbitrary: s)
  case Nil
  show ?case by simp
next
  case (Cons a acts)
  note st = step_stopping [OF Cons.prems, of a]
  from st have "stopping i (snd (step a s))" by simp
  from Cons.IH [OF this] st show ?case
    by (simp add: run_Cons pops_of_append execs_of_append)
qed

text \<open>
  Claim C8 does not hold. The server thread has passed the test of line 81 and holds the
  lock; the task with id 0 is still in the queue. Now \<open>stop\<close> is called. The thread goes
  on to pop the id and to execute the task.
\<close>

theorem stop_after_check_still_executes:
  "pops (fst (run (Start # submit 0 f_smthlse_int (2, 2, 2) 0 @ [Worker 0, Worker 0, Worker 0]) init)) = [] \<and>
   tasks (stop queued) = [0] \<and>
   stop_requested (threads (stop queued) ! 0) \<and>
   fst (run [Worker 0, Worker 0] (stop queued)) = [Pop 0 0, Exec 0 0] \<and>
   fst (run [Stop, Worker 0, Worker 0, Worker 0] queued) = [Pop 0 0, Exec 0 0]"
proof -
  have "pops (fst (run (Start # submit 0 f_smthlse_int (2, 2, 2) 0 @ [Worker 0, Worker 0, Worker 0])
                    (init :: int3 sys))) = []"
    by (simp add: run_Cons sys_defs)
  moreover have "tasks (stop queued) = [0] \<and> stop_requested (threads (stop queued) ! 0) \<and>
    fst (run [Worker 0, Worker 0] (stop queued)) = [Pop 0 0, Exec 0 0] \<and>
    fst (run [Stop, Worker 0, Worker 0, Worker 0] queued) = [Pop 0 0, Exec 0 0]"
    by (simp add: queued_eq run_Cons sys_defs f_smthlse_int_def)
  ultimately show ?thesis by simp
qed

text \<open>
  Claim C8, amended. From the moment a server thread has been asked to stop, in every
  interleaving: it pops no id, unless it had already passed the test of line 81 (it
  stands before the pop, holding the lock), and then it pops one id at most; and it
  executes no task but that one, or the one it had already popped. Every other queued
  task is left unexecuted by that thread.
\<close>

theorem stop_bounds_work:
  assumes "i < length (threads s)" and "stop_requested (threads s ! i)"
  shows "length (pops_of i (fst (run acts s))) \<le> (if pc (threads s ! i) = AtPop then 1 else 0) \<and>
         length (execs_of i (fst (run acts s)))
           \<le> (if pc (threads s ! i) = AtPop \<or> pc (threads s ! i) = AtExecute then 1 else 0)"
proof -
  have "stopping i s" using assms by (simp add: stopping_def)
  from run_stopping [OF this, of acts] show ?thesis
    by (auto simp: pop_budget_def exec_budget_def split: if_splits)
qed

theorem stop_bounds_work_witness:
  "0 < length (threads (stop queued)) \<and> stop_requested (threads (stop queued) ! 0) \<and>
   length (pops_of 0 (fst (run [Worker 0, Worker 0, Worker 0, Worker 0] (stop queued)))) \<le> 1 \<and>
   length (execs_of 0 (fst (run [Worker 0, Worker 0, Worker 0, Worker 0] (stop queued)))) \<le> 1 \<and>
   0 < length (threads (stop served)) \<and> stop_requested (threads (stop served) ! 0) \<and>
   pops_of 0 (fst (run (submit 1 f_smthlse_int (2, 2, 2) 0 @ [NotifyAll, Worker 0, Worker 0]) (stop served))) = [] \<and>
   execs_of 0 (fst (run (submit 1 f_smthlse_int (2, 2, 2) 0 @ [NotifyAll, Worker 0, Worker 0]) (stop served))) = []"
proof -
  have h: "0 < length (threads (stop queued))" "stop_requested (threads (stop queued) ! 0)"
    by (simp_all add: queued_eq stop_def request_stop_def)
  have p: "pc (threads (stop queued) ! 0) = AtPop"
    by (simp add: queued_eq stop_def request_stop_def)
  have h': "0 < length (threads (stop served))" "stop_requested (threads (stop served) ! 0)"
    by (simp_all add: served_eq stop_def request_stop_def)
  have p': "pc (threads (stop served) ! 0) = AtWhile"
    by (simp add: served_eq stop_def request_stop_def)
  from stop_bounds_work [OF h, of "[Worker 0, Worker 0, Worker 0, Worker 0]"]
    stop_bounds_work [OF h', of "(submit 1 f_smthlse_int (2, 2, 2) 0 @ [NotifyAll, Worker 0, Worker 0])"] h h'
  show ?thesis by (simp add: p p')
qed

subsection \<open>Task ids\<close>

lemma server_thread_nextid:
  "issues (fst (server_thread j s)) = [] \<and> pushes (fst (server_thread j s)) = [] \<and>
   nextid (snd (server_thread j s)) = nextid s \<and> clients (snd (server_thread j s)) = clients s"
  by (cases "pc (threads s ! j)")
     (auto simp: thread_defs split: list.splits option.splits sum.splits)

lemma client_step_nextid:
  "issues (fst (client_step c w s)) = [] \<and> nextid (snd (client_step c w s)) = nextid s"
  by (auto simp: client_step_def insert_task_def wake_fields dest!: notify_one_Some
        split: option.splits client.splits)

lemma step_issues:
  "issues (fst (step a s)) = [] \<and> nextid (snd (step a s)) = nextid s \<or>
   issues (fst (step a s)) = [nextid s] \<and> nextid (snd (step a s)) = nextid s + 1"
  by (cases a)
     (auto simp: step_def server_thread_nextid client_step_nextid alloc_id_def request_result_def
        start_def start_join_def stop_def stop_notify_def request_stop_fields wake_fields
        notify_all_fields Let_def split: option.splits sum.splits server_call.splits)

lemma run_issues_nth:
  "k < length (issues (fst (run acts s))) \<Longrightarrow> issues (fst (run acts s)) ! k = nextid s + of_nat k"
proof (induction acts arbitrary: s k)
  case Nil
  then show ?case by simp
next
  case (Cons a acts)
  let ?s1 = "snd (step a s)"
  from step_issues [of a s] show ?case
  proof
    assume h: "issues (fst (step a s)) = [] \<and> nextid ?s1 = nextid s"
    with Cons.prems have "k < length (issues (fst (run acts ?s1)))"
      by (simp add: run_Cons issues_append)
    from Cons.IH [OF this] h show ?thesis by (simp add: run_Cons issues_append)
  next
    assume h: "issues (fst (step a s)) = [nextid s] \<and> nextid ?s1 = nextid s + 1"
    show ?thesis
    proof (cases k)
      case 0
      with h show ?thesis by (simp add: run_Cons issues_append)
    next
      case (Suc k')
      with Cons.prems h have "k' < length (issues (fst (run acts ?s1)))"
        by (simp add: run_Cons issues_append)
      from Cons.IH [OF this] h Suc show ?thesis by (simp add: run_Cons issues_append)
    qed
  qed
qed

text \<open>A pushed id is the id its client was given by the counter.\<close>

lemma step_pushes_allocated:
  "(pushes (fst (step a s)) = [] \<or>
    (\<exists>c tid f x. clients s c = Some (Allocated tid f x) \<and> pushes (fst (step a s)) = [tid])) \<and>
   (\<forall>c tid f x. clients (snd (step a s)) c = Some (Allocated tid f x) \<longrightarrow>
      clients s c = Some (Allocated tid f x) \<or> issues (fst (step a s)) = [tid])"
proof (cases "terminated s")
  case True
  then show ?thesis by (simp add: step_def)
next
  case False
  show ?thesis
  proof (cases a)
    case (Worker j)
    then show ?thesis using False by (simp add: step_def server_thread_nextid)
  next
    case (Call c g y)
    then show ?thesis using False by (auto simp: step_def alloc_id_def)
  next
    case (Insert c)
    from step_insert [of c s] show ?thesis unfolding Insert
      by (auto simp: insert_task_def split: if_splits)
  next
    case (Notify c j)
    then show ?thesis using False
      by (auto simp: step_def client_step_def wake_fields dest!: notify_one_Some
            split: option.splits client.splits if_splits)
  next
    case (Request T r)
    then show ?thesis using False
      by (simp add: step_def request_result_def split: option.splits sum.splits)
  next
    case Start
    then show ?thesis using False
      by (simp add: step_def start_def Let_def request_stop_fields split: option.splits)
  next
    case Join
    then show ?thesis using False
      by (simp add: step_def start_join_def split: server_call.splits)
  next
    case Stop
    then show ?thesis using False
      by (simp add: step_def stop_def request_stop_fields split: option.splits)
  next
    case NotifyAll
    then show ?thesis using False by (simp add: step_def stop_notify_def notify_all_fields)
  next
    case (Spurious j)
    then show ?thesis using False by (simp add: step_def wake_fields)
  qed
qed

lemma run_pushes_issued:
  "(\<And>c tid f x. clients s c = Some (Allocated tid f x) \<Longrightarrow> tid \<in> A) \<Longrightarrow>
   set (pushes (fst (run acts s))) \<subseteq> A \<union> set (issues (fst (run acts s)))"
proof (induction acts arbitrary: s A)
  case Nil
  then show ?case by simp
next
  case (Cons a acts)
  let ?s1 = "snd (step a s)"
  let ?B = "A \<union> set (issues (fst (step a s)))"
  note st = step_pushes_allocated [of a s]
  have "tid \<in> ?B" if "clients ?s1 c = Some (Allocated tid f x)" for c tid f x
    using st that Cons.prems by fastforce
  then have "set (pushes (fst (run acts ?s1))) \<subseteq> ?B \<union> set (issues (fst (run acts ?s1)))"
    by (rule Cons.IH)
  moreover have "set (pushes (fst (step a s))) \<subseteq> A" using st Cons.prems by auto
  ultimately show ?case by (auto simp: run_Cons pushes_append issues_append)
qed

lemma sint_of_nat_32: "k < 2 ^ 31 \<Longrightarrow> sint (of_nat k :: 32 word) = int k"
  by (simp add: signed_of_nat signed_take_bit_int_eq_self)

lemma unat_of_nat_32: "k < 2 ^ 32 \<Longrightarrow> unat (of_nat k :: 32 word) = k"
  by (simp add: unat_of_nat)

lemma submit_round:
  assumes "mut s = None" and "\<not> terminated s" and "clients s c = None" and "none_blocked s"
  shows "issues (fst (run (submit c f x j) s)) = [nextid s] \<and>
         mut (snd (run (submit c f x j) s)) = None \<and> \<not> terminated (snd (run (submit c f x j) s)) \<and>
         clients (snd (run (submit c f x j) s)) c = None \<and> none_blocked (snd (run (submit c f x j) s))"
proof -
  let ?s2 = "(insert_task (nextid s) f x (s\<lparr>nextid := nextid s + 1\<rparr>))
               \<lparr>clients := (clients s)(c \<mapsto> Pushed (nextid s))\<rparr>"
  have nb: "none_blocked ?s2" using assms(4) by (simp add: none_blocked_def insert_task_def)
  have "step (Call c f x) s
      = ([Issue (nextid s)], s\<lparr>nextid := nextid s + 1, clients := (clients s)(c \<mapsto> Allocated (nextid s) f x)\<rparr>)"
    using assms(2,3) by (simp add: step_def alloc_id_def)
  moreover have "step (Insert c) (s\<lparr>nextid := nextid s + 1, clients := (clients s)(c \<mapsto> Allocated (nextid s) f x)\<rparr>)
      = ([Push (nextid s)], ?s2)"
    using assms(1,2) by (simp add: step_def client_step_def insert_task_def)
  moreover have "step (Notify c j) ?s2 = ([], ?s2\<lparr>clients := clients s\<rparr>)"
  proof -
    have "(clients s)(c := None) = clients s" using assms(3) by (simp add: fun_upd_idem)
    then show ?thesis
      using assms(2) none_blocked_notify_one [OF nb, of j]
      by (simp add: step_def client_step_def insert_task_def)
  qed
  ultimately have ev: "fst (run (submit c f x j) s) = [Issue (nextid s), Push (nextid s)]"
    and st: "snd (run (submit c f x j) s) = ?s2\<lparr>clients := clients s\<rparr>"
    by (simp_all add: submit_def run_Cons)
  show ?thesis unfolding ev st using assms
    by (simp add: insert_task_def none_blocked_def)
qed

lemma run_submits_length:
  "mut s = None \<Longrightarrow> \<not> terminated s \<Longrightarrow> clients s c = None \<Longrightarrow> none_blocked s \<Longrightarrow>
   length (issues (fst (run (concat (replicate n (submit c f x j))) s))) = n"
proof (induction n arbitrary: s)
  case 0
  then show ?case by simp
next
  case (Suc n)
  note r = submit_round [OF Suc.prems, of f x j]
  from r have "mut (snd (run (submit c f x j) s)) = None"
    and "\<not> terminated (snd (run (submit c f x j) s))"
    and "clients (snd (run (submit c f x j) s)) c = None"
    and "none_blocked (snd (run (submit c f x j) s))" by simp_all
  from Suc.IH [OF this] r show ?case by (simp add: run_append issues_append)
qed

lemma run_submits_nth:
  assumes "mut s = None" and "\<not> terminated s" and "clients s c = None" and "none_blocked s"
    and "k < n"
  shows "issues (fst (run (concat (replicate n (submit c f x j))) s)) ! k = nextid s + of_nat k"
  using run_issues_nth [of k "concat (replicate n (submit c f x j))" s]
    run_submits_length [OF assms(1-4), of n f x j] assms(5)
  by simp

text \<open>
  Claim C9 does not hold. The counter is a 32-bit \<open>int\<close>. Of \<open>2 ^ 32 + 1\<close> calls of
  \<open>add_task\<close>, made one after the other, the last one is given the id of the first, and the
  id of call number \<open>2 ^ 31\<close> (counted from 0) is smaller than the id before it.
\<close>

theorem id_reissued:
  "issues (fst (run (concat (replicate (2 ^ 32 + 1) (submit 0 f_smthlse_int (2, 2, 2) 0))) init)) ! (2 ^ 32)
     = issues (fst (run (concat (replicate (2 ^ 32 + 1) (submit 0 f_smthlse_int (2, 2, 2) 0))) init)) ! 0 \<and>
   sint (issues (fst (run (concat (replicate (2 ^ 32 + 1) (submit 0 f_smthlse_int (2, 2, 2) 0))) init))
           ! (2 ^ 31))
     < sint (issues (fst (run (concat (replicate (2 ^ 32 + 1) (submit 0 f_smthlse_int (2, 2, 2) 0))) init))
               ! (2 ^ 31 - 1))"
proof -
  let ?init = "init :: (32 word \<times> 32 word \<times> 32 word) sys"
  let ?ids = "issues (fst (run (concat (replicate (2 ^ 32 + 1) (submit 0 f_smthlse_int (2, 2, 2) 0))) ?init))"
  have a: "?ids ! (2 ^ 32) = nextid ?init + of_nat (2 ^ 32)"
    by (rule run_submits_nth) (simp_all add: init_def none_blocked_def)
  have b: "?ids ! 0 = nextid ?init + of_nat 0"
    by (rule run_submits_nth) (simp_all add: init_def none_blocked_def)
  have c: "?ids ! (2 ^ 31) = nextid ?init + of_nat (2 ^ 31)"
    by (rule run_submits_nth) (simp_all add: init_def none_blocked_def)
  have d: "?ids ! (2 ^ 31 - 1) = nextid ?init + of_nat (2 ^ 31 - 1)"
    by (rule run_submits_nth) (simp_all add: init_def none_blocked_def)
  have e: "(nextid ?init + of_nat (2 ^ 32) :: 32 word) = nextid ?init + of_nat 0"
    by (simp add: init_def)
  have f: "sint (nextid ?init + of_nat (2 ^ 31) :: 32 word) < sint (nextid ?init + of_nat (2 ^ 31 - 1) :: 32 word)"
    by (simp add: init_def)
  show ?thesis
    unfolding a b c d using e f by (rule conjI)
qed

text \<open>
  Claim C9, amended. A call of \<open>add_task\<close> returns the value of the counter and adds 1 to
  it, in one atomic step (line 123), before and outside the critical section that inserts
  the task. In every interleaving of any number of clients and server threads that begins
  with the counter at 0, the ids are 0, 1, 2, ... in the order of these allocations,
  computed in 32 bits: the first \<open>2 ^ 31\<close> ids allocated increase strictly, and the first
  \<open>2 ^ 32\<close> ids allocated are all different. The order in which the ids are pushed onto the
  queue is another matter (two clients may push in the opposite order of their
  allocations); when no call of \<open>add_task\<close> is under way at the beginning, every id pushed
  is one of the ids allocated.
\<close>

theorem ids_count_up_in_allocation_order:
  assumes "nextid s = 0"
  shows "fst (add_task f x s) = 0 \<and> nextid (snd (add_task f x s)) = 1 \<and>
         (\<forall>k < length (issues (fst (run acts s))). issues (fst (run acts s)) ! k = of_nat k) \<and>
         (length (issues (fst (run acts s))) \<le> 2 ^ 31 \<longrightarrow>
            (\<forall>j k. j < k \<and> k < length (issues (fst (run acts s))) \<longrightarrow>
               sint (issues (fst (run acts s)) ! j) < sint (issues (fst (run acts s)) ! k))) \<and>
         (length (issues (fst (run acts s))) \<le> 2 ^ 32 \<longrightarrow> distinct (issues (fst (run acts s)))) \<and>
         (clients s = Map.empty \<longrightarrow>
            set (pushes (fst (run acts s))) \<subseteq> set (issues (fst (run acts s))))"
proof -
  let ?ids = "issues (fst (run acts s))"
  have ret: "fst (add_task f x s) = 0 \<and> nextid (snd (add_task f x s)) = 1"
    using assms by (simp add: add_task_def alloc_id_def insert_task_def)
  have nth: "\<And>k. k < length ?ids \<Longrightarrow> ?ids ! k = of_nat k"
    using run_issues_nth [of _ acts s] assms by simp
  have mono: "sint (?ids ! j) < sint (?ids ! k)"
    if "length ?ids \<le> 2 ^ 31" and "j < k" and "k < length ?ids" for j k
  proof -
    have "j < 2 ^ 31" and "k < 2 ^ 31" using that by simp_all
    then have "sint (of_nat j :: 32 word) = int j" and "sint (of_nat k :: 32 word) = int k"
      by (simp_all add: sint_of_nat_32)
    then show ?thesis using that nth [of j] nth [of k] by simp
  qed
  have dist: "distinct ?ids" if len: "length ?ids \<le> 2 ^ 32"
  proof -
    have "?ids ! j \<noteq> ?ids ! k" if "j < length ?ids" and "k < length ?ids" and "j \<noteq> k" for j k
    proof
      assume "?ids ! j = ?ids ! k"
      then have "unat (of_nat j :: 32 word) = unat (of_nat k :: 32 word)"
        using that nth [of j] nth [of k] by simp
      moreover have "j < 2 ^ 32" and "k < 2 ^ 32" using that len by simp_all
      ultimately show False using \<open>j \<noteq> k\<close> by (simp add: unat_of_nat_32)
    qed
    then show ?thesis by (simp add: distinct_conv_nth)
  qed
  have sub: "set (pushes (fst (run acts s))) \<subseteq> set ?ids" if "clients s = Map.empty"
    using run_pushes_issued [of s "{}" acts] that by simp
  show ?thesis using ret nth mono dist sub by blast
qed

theorem ids_count_up_in_allocation_order_witness:
  "nextid (init :: int3 sys) = 0 \<and> clients (init :: int3 sys) = Map.empty \<and>
   issues (fst (run [Start, Call 0 f_smthlse_int (2, 2, 2), Call 1 failing (0, 0, 0), Insert 1, Worker 0,
                     Insert 0, Notify 0 0, Notify 1 0, Call 0 f_smthlse_int (1, 2, 3)] init)) = [0, 1, 2] \<and>
   pushes (fst (run [Start, Call 0 f_smthlse_int (2, 2, 2), Call 1 failing (0, 0, 0), Insert 1, Worker 0,
                     Insert 0, Notify 0 0, Notify 1 0, Call 0 f_smthlse_int (1, 2, 3)] init)) = [1, 0] \<and>
   sint (issues (fst (run [Start, Call 0 f_smthlse_int (2, 2, 2), Call 1 failing (0, 0, 0), Insert 1, Worker 0,
                     Insert 0, Notify 0 0, Notify 1 0, Call 0 f_smthlse_int (1, 2, 3)] init)) ! 1)
     < sint (issues (fst (run [Start, Call 0 f_smthlse_int (2, 2, 2), Call 1 failing (0, 0, 0), Insert 1,
                     Worker 0, Insert 0, Notify 0 0, Notify 1 0, Call 0 f_smthlse_int (1, 2, 3)] init)) ! 2) \<and>
   distinct (issues (fst (run [Start, Call 0 f_smthlse_int (2, 2, 2), Call 1 failing (0, 0, 0), Insert 1,
                     Worker 0, Insert 0, Notify 0 0, Notify 1 0, Call 0 f_smthlse_int (1, 2, 3)] init))) \<and>
   set (pushes (fst (run [Start, Call 0 f_smthlse_int (2, 2, 2), Call 1 failing (0, 0, 0), Insert 1,
                     Worker 0, Insert 0, Notify 0 0, Notify 1 0, Call 0 f_smthlse_int (1, 2, 3)] init)))
     \<subseteq> set (issues (fst (run [Start, Call 0 f_smthlse_int (2, 2, 2), Call 1 failing (0, 0, 0), Insert 1,
                     Worker 0, Insert 0, Notify 0 0, Notify 1 0, Call 0 f_smthlse_int (1, 2, 3)] init)))"
proof -
  let ?acts = "[Start, Call 0 f_smthlse_int (2, 2, 2), Call 1 failing (0, 0, 0), Insert 1, Worker 0,
                Insert 0, Notify 0 0, Notify 1 0, Call 0 f_smthlse_int (1, 2, 3)]"
  have h: "nextid (init :: int3 sys) = 0" and c: "clients (init :: int3 sys) = Map.empty"
    by (simp_all add: init_def)
  have e: "issues (fst (run ?acts init)) = [0, 1, 2]" and p: "pushes (fst (run ?acts init)) = [1, 0]"
    by (simp_all add: run_Cons sys_defs)
  note t = ids_count_up_in_allocation_order [OF h, of f_smthlse_int "(2, 2, 2)" ?acts, unfolded e p]
  from t c have "sint ([0, 1, 2 :: 32 word] ! 1) < sint ([0, 1, 2 :: 32 word] ! 2)"
    and "distinct [0, 1, 2 :: 32 word]"
    and "set [1, 0 :: 32 word] \<subseteq> set [0, 1, 2]"
    by simp_all
  then show ?thesis unfolding e p using h c by simp
qed

section \<open>Properties of the matrix-vector product\<close>

lemma to_size_t_nat: "k < 2 ^ 64 \<Longrightarrow> to_size_t (int k) = k"
proof -
  assume "k < 2 ^ 64"
  then have "int k < 2 ^ 64" by (metis of_nat_less_iff of_nat_numeral of_nat_power)
  then have "int k mod 2 ^ 64 = int k" by simp
  then show ?thesis by (simp add: to_size_t_def)
qed

lemma to_int_nat: "k < 2 ^ 31 \<Longrightarrow> to_int (int k) = int k"
proof -
  assume "k < 2 ^ 31"
  then have "int k < 2 ^ 31" by (metis of_nat_less_iff of_nat_numeral of_nat_power)
  then show ?thesis by (simp add: to_int_def)
qed

lemma in_int_nat: "k < 2 ^ 31 \<Longrightarrow> in_int (int k)"
proof -
  assume "k < 2 ^ 31"
  then have "int k < 2 ^ 31" by (metis of_nat_less_iff of_nat_numeral of_nat_power)
  then show ?thesis by (simp add: in_int_def)
qed

lemma small_index:
  assumes "i < 2 ^ 31" and "n < 2 ^ 31" and "j < n"
  shows "i * n + j < (2 ^ 64 :: nat)"
proof -
  have "i * n \<le> 2 ^ 31 * 2 ^ 31" using assms by (intro mult_le_mono) simp_all
  moreover have "j < 2 ^ 31" using assms by simp
  ultimately show ?thesis by simp
qed

declare inner_loop.simps [simp del] mvp_loop.simps [simp del] omp_loop.simps [simp del]

lemma inner_loop_eq:
  assumes "i * n + n \<le> length a" and "n \<le> length b" and "i < 2 ^ 31" and "n < 2 ^ 31"
  shows "j \<le> n \<Longrightarrow> i < length c \<Longrightarrow>
         inner_loop a b c (int i) n (int j)
           = Some (c[i := foldl (\<lambda>acc j. acc + a ! (i * n + j) * b ! j) (c ! i) [j..<n]])"
proof (induction "n - j" arbitrary: j c)
  case 0
  then have "j = n" by simp
  then show ?case using assms by (subst inner_loop.simps) (simp add: to_size_t_nat)
next
  case (Suc d)
  then have jn: "j < n" by simp
  then have j64: "j < 2 ^ 64" and i64: "i < 2 ^ 64" and j31: "Suc j < 2 ^ 31" using assms by simp_all
  have idx: "(i * n + j) mod 2 ^ 64 = i * n + j"
    using small_index [OF assms(3,4) jn] by simp
  have inb: "i * n + j < length a" "j < length b" using jn assms by simp_all
  let ?c = "c[i := c ! i + a ! (i * n + j) * b ! j]"
  have ic: "i < length c" using Suc.prems by simp
  have ts: "to_size_t (int j) = j" "to_size_t (int i) = i"
    using to_size_t_nat [OF j64] to_size_t_nat [OF i64] by simp_all
  have nx: "in_int (int (Suc j))" "int j + 1 = int (Suc j)"
    using in_int_nat [OF j31] by simp_all
  have step: "inner_loop a b c (int i) n (int j) = inner_loop a b ?c (int i) n (int (Suc j))"
    by (subst inner_loop.simps) (simp only: ts idx nx Let_def jn inb ic nat_int of_nat_0_le_iff simp_thms if_True if_False)
  have "d = n - Suc j" using Suc.hyps by simp
  from Suc.hyps(1) [OF this, of ?c] jn ic
  have "inner_loop a b ?c (int i) n (int (Suc j))
      = Some (?c[i := foldl (\<lambda>acc j. acc + a ! (i * n + j) * b ! j) (?c ! i) [Suc j..<n]])"
    by simp
  then show ?case using step jn ic by (simp add: upt_conv_Cons)
qed

lemma row_body_eq:
  assumes "i * n + n \<le> length a" and "n \<le> length b" and "i < 2 ^ 31" and "n < 2 ^ 31"
    and "i < length c"
  shows "row_body a b c (int i) n = Some (c[i := row_sum a b n i])"
  using inner_loop_eq [OF assms(1-4), of 0 "c[i := 0]"] assms(5)
  by (simp add: row_body_def row_sum_def)

lemma fill_rows_length: "length (fill_rows a b n c l h) = length c"
  by (simp add: fill_rows_def)

lemma fill_rows_nth:
  "r < length c \<Longrightarrow> fill_rows a b n c l h ! r = (if l \<le> r \<and> r < h then row_sum a b n r else c ! r)"
  by (simp add: fill_rows_def)

lemma fill_rows_empty: "fill_rows a b n c l l = c"
  by (rule nth_equalityI) (auto simp: fill_rows_length fill_rows_nth)

lemma fill_rows_step:
  assumes "l < h" and "l < length c"
  shows "fill_rows a b n (c[l := row_sum a b n l]) (Suc l) h = fill_rows a b n c l h"
  by (rule nth_equalityI) (use assms in \<open>auto simp: fill_rows_length fill_rows_nth nth_list_update\<close>)

lemma row_inside:
  assumes "l < h" and "h * n \<le> length a"
  shows "l * n + n \<le> length a"
proof -
  have "Suc l * n \<le> h * n" using assms(1) by (intro mult_le_mono) simp_all
  then show ?thesis using assms(2) by simp
qed

lemma omp_loop_eq:
  assumes "h * n \<le> length a" and "n \<le> length b" and "h < 2 ^ 31" and "n < 2 ^ 31"
  shows "l \<le> h \<Longrightarrow> h \<le> length c \<Longrightarrow>
         omp_loop a b c n (int l) (int h - 1) = Some (fill_rows a b n c l h)"
proof (induction "h - l" arbitrary: l c)
  case 0
  then have "l = h" by simp
  then show ?case by (subst omp_loop.simps) (simp add: fill_rows_empty)
next
  case (Suc d)
  then have lh: "l < h" by simp
  then have lc: "l < length c" and l31: "l < 2 ^ 31" and sl31: "Suc l < 2 ^ 31"
    using Suc.prems assms(3) by simp_all
  let ?c = "c[l := row_sum a b n l]"
  have body: "row_body a b c (int l) n = Some ?c"
    using row_body_eq [OF row_inside [OF lh assms(1)] assms(2) l31 assms(4) lc] .
  have nx: "in_int (int (Suc l))" "int l + 1 = int (Suc l)" "int l \<le> int h - 1"
    using in_int_nat [OF sl31] lh by simp_all
  have step: "omp_loop a b c n (int l) (int h - 1) = omp_loop a b ?c n (int (Suc l)) (int h - 1)"
    by (subst omp_loop.simps) (simp only: body nx option.case if_True if_False simp_thms)
  have "d = h - Suc l" using Suc.hyps by simp
  from Suc.hyps(1) [OF this, of ?c] lh Suc.prems
  have "omp_loop a b ?c n (int (Suc l)) (int h - 1) = Some (fill_rows a b n ?c (Suc l) h)"
    by simp
  then show ?case using step fill_rows_step [OF lh lc] by simp
qed

lemma mvp_loop_eq:
  assumes "m * n \<le> length a" and "n \<le> length b" and "m < 2 ^ 31" and "n < 2 ^ 31"
  shows "l \<le> m \<Longrightarrow> m \<le> length c \<Longrightarrow>
         mvp_loop a b c m n (int l) = Some (fill_rows a b n c l m)"
proof (induction "m - l" arbitrary: l c)
  case 0
  then have "l = m" by simp
  moreover have "to_size_t (int m) = m" using assms(3) by (intro to_size_t_nat) simp
  ultimately show ?case by (subst mvp_loop.simps) (simp add: fill_rows_empty)
next
  case (Suc d)
  then have lh: "l < m" by simp
  then have lc: "l < length c" and l31: "l < 2 ^ 31" and sl31: "Suc l < 2 ^ 31" and l64: "l < 2 ^ 64"
    using Suc.prems assms(3) by simp_all
  let ?c = "c[l := row_sum a b n l]"
  have body: "row_body a b c (int l) n = Some ?c"
    using row_body_eq [OF row_inside [OF lh assms(1)] assms(2) l31 assms(4) lc] .
  have nx: "in_int (int (Suc l))" "int l + 1 = int (Suc l)" "to_size_t (int l) < m"
    using in_int_nat [OF sl31] lh to_size_t_nat [OF l64] by simp_all
  have step: "mvp_loop a b c m n (int l) = mvp_loop a b ?c m n (int (Suc l))"
    by (subst mvp_loop.simps) (simp only: body nx option.case if_True if_False simp_thms)
  have "d = m - Suc l" using Suc.hyps by simp
  from Suc.hyps(1) [OF this, of ?c] lh Suc.prems
  have "mvp_loop a b ?c m n (int (Suc l)) = Some (fill_rows a b n ?c (Suc l) m)"
    by simp
  then show ?case using step fill_rows_step [OF lh lc] by simp
qed

lemma matrix_vector_product_eq:
  assumes "m * n \<le> length a" and "n \<le> length b" and "m < 2 ^ 31" and "n < 2 ^ 31"
    and "length c = m"
  shows "matrix_vector_product a b c m n = Some (map (row_sum a b n) [0..<m])"
proof -
  have "matrix_vector_product a b c m n = Some (fill_rows a b n c 0 m)"
    unfolding matrix_vector_product_def
    using mvp_loop_eq [OF assms(1-4), of 0 c] assms(5) by simp
  moreover have "fill_rows a b n c 0 m = map (row_sum a b n) [0..<m]"
    using assms(5) by (simp add: fill_rows_def)
  ultimately show ?thesis by simp
qed

lemma to_int_round_trip:
  assumes "in_int v"
  shows "to_int (int (to_size_t v)) = v"
proof -
  have "int (to_size_t v) = v mod 2 ^ 64" by (simp add: to_size_t_def)
  moreover have "(v mod 2 ^ 64 + 2 ^ 31) mod 2 ^ 32 = (v + 2 ^ 31) mod (2 ^ 32 :: int)"
  proof -
    have "(2 ^ 32 :: int) dvd 2 ^ 64" by (simp add: le_imp_power_dvd)
    then have "(v mod 2 ^ 64) mod 2 ^ 32 = v mod (2 ^ 32 :: int)" by (rule mod_mod_cancel)
    then show ?thesis by (metis mod_add_left_eq)
  qed
  moreover have "(v + 2 ^ 31) mod (2 ^ 32 :: int) = v + 2 ^ 31"
    using assms by (simp add: in_int_def)
  ultimately show ?thesis by (simp add: to_int_def)
qed

lemma lo_le_m:
  assumes "0 \<le> t" and "t < k"
  shows "nat t * (m div nat k) + m div nat k \<le> m"
proof -
  have "Suc (nat t) \<le> nat k" using assms by simp
  then have "Suc (nat t) * (m div nat k) \<le> nat k * (m div nat k)" by (intro mult_le_mono) simp_all
  also have "\<dots> \<le> m" by simp
  finally show ?thesis by simp
qed

lemma omp_bounds_eq:
  assumes "1 \<le> m" and "m < 2 ^ 31" and "1 \<le> k" and "k < 2 ^ 31" and "0 \<le> t" and "t < k"
  shows "omp_bounds m k t = Some (int (lo m k t), int (hi m k t) - 1)"
proof -
  let ?q = "m div nat k"
  have k64: "to_size_t k = nat k"
    using assms(3,4) by (simp add: to_size_t_def)
  have knz: "(nat k = 0) = False" using assms(3) by simp
  have q31: "?q < 2 ^ 31" using assms(2) by (meson div_le_dividend le_less_trans)
  have tq: "to_int (int ?q) = int ?q" using q31 by (rule to_int_nat)
  have le: "nat t * ?q + ?q \<le> m" using lo_le_m [OF assms(5,6)] .
  have lb: "int (nat t * ?q) = t * int ?q" using assms(5) by simp
  have s1: "int (nat t * ?q + ?q) = t * int ?q + int ?q" using assms(5) by simp
  have lb31: "nat t * ?q < 2 ^ 31" "nat t * ?q + ?q < 2 ^ 31" using le assms(2) by simp_all
  have r1: "in_int (t * int ?q)" using in_int_nat [OF lb31(1)] unfolding lb .
  have r2: "in_int (k - 1)" using assms(3,4) by (simp add: in_int_def)
  show ?thesis
  proof (cases "t = k - 1")
    case True
    then have c: "(t = k - 1) = True" by simp
    have "m + 2 ^ 64 - 1 = (m - 1) + 2 ^ 64" using assms(1) by simp
    then have "(m + 2 ^ 64 - 1) mod 2 ^ 64 = (m - 1) mod 2 ^ 64"
      by (simp only: mod_add_self2)
    moreover have "m - 1 < 2 ^ 64" using assms(2) by simp
    ultimately have m1: "(m + 2 ^ 64 - 1) mod 2 ^ 64 = m - 1" by (simp only: mod_less)
    have "m - 1 < 2 ^ 31" using assms(2) by simp
    then have m2: "to_int (int (m - 1)) = int (m - 1)" by (rule to_int_nat)
    have m3: "int (m - 1) = int m - 1" using assms(1) by simp
    have m4: "to_int (int m - 1) = int m - 1" using m2 unfolding m3 .
    show ?thesis
      by (simp only: omp_bounds_def k64 knz tq Let_def r1 r2 c m1 m3 m4 lo_def hi_def lb
            if_True if_False simp_thms)
  next
    case False
    then have c: "(t = k - 1) = False" by simp
    have r3: "in_int (t * int ?q + int ?q)" using in_int_nat [OF lb31(2)] unfolding s1 .
    have "0 \<le> int (nat t * ?q + ?q)" by (rule of_nat_0_le_iff)
    then have ge: "0 \<le> t * int ?q + int ?q" unfolding s1 .
    have r4: "in_int (t * int ?q + int ?q - 1)"
      using r3 ge by (simp add: in_int_def)
    note rt = to_int_round_trip [OF r4]
    show ?thesis
      by (simp only: omp_bounds_def k64 knz tq Let_def r1 r2 r3 r4 rt c lo_def hi_def lb s1
            if_True if_False simp_thms)
  qed
qed

lemma lo_le_hi:
  assumes "0 \<le> t" and "t < k"
  shows "lo m k t \<le> hi m k t \<and> hi m k t \<le> m"
proof (cases "t = k - 1")
  case True
  then show ?thesis using lo_le_m [OF assms, of m] by (simp add: lo_def hi_def)
next
  case False
  then show ?thesis using lo_le_m [OF assms, of m] by (simp add: lo_def hi_def)
qed

lemma matrix_vector_product_omp_eq:
  assumes "1 \<le> m" and "m < 2 ^ 31" and "n < 2 ^ 31" and "1 \<le> k" and "k < 2 ^ 31"
    and "m * n \<le> length a" and "n \<le> length b" and "length c = m" and "0 \<le> t" and "t < k"
  shows "matrix_vector_product_omp a b c m n k t = Some (fill_rows a b n c (lo m k t) (hi m k t))"
proof -
  note lh = lo_le_hi [OF assms(9,10), of m]
  have "hi m k t * n \<le> m * n" using lh by (intro mult_le_mono) simp_all
  then have ha: "hi m k t * n \<le> length a" using assms(6) by (rule le_trans)
  have h31: "hi m k t < 2 ^ 31" using lh assms(2) by simp
  have hc: "hi m k t \<le> length c" using lh assms(8) by simp
  from omp_loop_eq [OF ha assms(7) h31 assms(3), of "lo m k t" c] lh hc
  show ?thesis
    by (simp add: matrix_vector_product_omp_def omp_bounds_eq [OF assms(1,2,4,5,9,10)])
qed

lemma partition_nat:
  assumes "1 \<le> (K :: nat)" and "(r :: nat) < m"
  shows "\<exists>!T. T < K \<and> T * (m div K) \<le> r \<and> r < (if T = K - 1 then m else T * (m div K) + m div K)"
proof -
  let ?q = "m div K"
  let ?P = "\<lambda>T. T < K \<and> T * ?q \<le> r \<and> r < (if T = K - 1 then m else T * ?q + ?q)"
  have ex: "\<exists>T. ?P T"
  proof (cases "?q = 0 \<or> K - 1 \<le> r div ?q")
    case True
    have "(K - 1) * ?q \<le> r"
    proof (cases "?q = 0")
      case True
      then show ?thesis by simp
    next
      case False
      with True have "K - 1 \<le> r div ?q" by simp
      then have "(K - 1) * ?q \<le> (r div ?q) * ?q" by (intro mult_le_mono) simp_all
      also have "\<dots> \<le> r" by simp
      finally show ?thesis .
    qed
    then have "?P (K - 1)" using assms by simp
    then show ?thesis by blast
  next
    case False
    then have q: "0 < ?q" and lt: "r div ?q < K - 1" by simp_all
    have "(r div ?q) * ?q \<le> r" by simp
    moreover have "r < (r div ?q) * ?q + ?q"
      using q by (metis add.commute dividend_less_div_times mult.commute)
    ultimately have "?P (r div ?q)" using lt by simp
    then show ?thesis by blast
  qed
  have uniq: "T1 = T2" if "?P T1" and "?P T2" for T1 T2
  proof -
    have no: False if p1: "?P A" and p2: "?P B" and "A < B" for A B
    proof -
      from p2 \<open>A < B\<close> have "A \<noteq> K - 1" by auto
      with p1 have "r < A * ?q + ?q" by simp
      moreover have "Suc A * ?q \<le> B * ?q" using \<open>A < B\<close> by (intro mult_le_mono) simp_all
      ultimately show False using p2 by simp
    qed
    show ?thesis
      using no [of T1 T2] no [of T2 T1] that by (cases T1 T2 rule: linorder_cases) auto
  qed
  from ex uniq show ?thesis by blast
qed

lemma partition_rows:
  assumes "1 \<le> k" and "r < m"
  shows "\<exists>!t. 0 \<le> t \<and> t < k \<and> lo m k t \<le> r \<and> r < hi m k t"
proof -
  have K: "1 \<le> nat k" using assms(1) by simp
  from partition_nat [OF K assms(2)] obtain T where
    T: "T < nat k" "T * (m div nat k) \<le> r" "r < (if T = nat k - 1 then m else T * (m div nat k) + m div nat k)"
    and U: "\<And>T'. T' < nat k \<and> T' * (m div nat k) \<le> r \<and>
              r < (if T' = nat k - 1 then m else T' * (m div nat k) + m div nat k) \<Longrightarrow> T' = T"
    by (auto simp: Ex1_def)
  have conv: "(t = k - 1) = (nat t = nat k - 1)" if "0 \<le> t" for t
    using that assms(1) by auto
  show ?thesis
  proof (rule ex1I [of _ "int T"])
    show "0 \<le> int T \<and> int T < k \<and> lo m k (int T) \<le> r \<and> r < hi m k (int T)"
      using T conv [of "int T"] by (auto simp: lo_def hi_def)
  next
    fix t
    assume h: "0 \<le> t \<and> t < k \<and> lo m k t \<le> r \<and> r < hi m k t"
    then have "nat t < nat k \<and> nat t * (m div nat k) \<le> r \<and>
              r < (if nat t = nat k - 1 then m else nat t * (m div nat k) + m div nat k)"
      using conv [of t] by (auto simp: lo_def hi_def)
    from U [OF this] have "nat t = T" .
    with h show "t = int T" by auto
  qed
qed

lemma run_threads_eq:
  assumes "1 \<le> m" and "m < 2 ^ 31" and "n < 2 ^ 31" and "1 \<le> k" and "k < 2 ^ 31"
    and "m * n \<le> length a" and "n \<le> length b"
  shows "length c = m \<Longrightarrow> \<forall>t \<in> set ts. 0 \<le> t \<and> t < k \<Longrightarrow>
         run_threads a b c m n k ts
           = Some (map (\<lambda>r. if \<exists>t \<in> set ts. lo m k t \<le> r \<and> r < hi m k t
                               then row_sum a b n r else c ! r) [0..<m])"
proof (induction ts arbitrary: c)
  case Nil
  then have "map ((!) c) [0..<m] = c" by (auto intro: nth_equalityI)
  then show ?case by simp
next
  case (Cons t ts)
  let ?c = "fill_rows a b n c (lo m k t) (hi m k t)"
  have t: "0 \<le> t" "t < k" using Cons.prems(2) by simp_all
  have call: "matrix_vector_product_omp a b c m n k t = Some ?c"
    using matrix_vector_product_omp_eq [OF assms(1-7) Cons.prems(1) t] .
  have len: "length ?c = m" using Cons.prems(1) by (simp add: fill_rows_length)
  have rest: "run_threads a b ?c m n k ts
           = Some (map (\<lambda>r. if \<exists>t \<in> set ts. lo m k t \<le> r \<and> r < hi m k t
                               then row_sum a b n r else ?c ! r) [0..<m])"
    using Cons.IH [OF len] Cons.prems(2) by simp
  have "map (\<lambda>r. if \<exists>t \<in> set ts. lo m k t \<le> r \<and> r < hi m k t
                               then row_sum a b n r else ?c ! r) [0..<m]
      = map (\<lambda>r. if \<exists>t' \<in> set (t # ts). lo m k t' \<le> r \<and> r < hi m k t'
                               then row_sum a b n r else c ! r) [0..<m]"
    using Cons.prems(1) by (auto simp: fill_rows_nth)
  with call rest show ?case by simp
qed

lemma omp_single_thread_large:
  "matrix_vector_product_omp a b c (2 ^ 32) n 1 0 = Some c"
proof -
  have "omp_bounds (2 ^ 32) 1 0 = Some (0, - 1)"
    by (simp add: omp_bounds_def to_size_t_def to_int_def in_int_def)
  moreover have "omp_loop a b c n 0 (- 1) = Some c"
    by (subst omp_loop.simps) simp
  ultimately show ?thesis by (simp only: matrix_vector_product_omp_def option.case prod.case)
qed

text \<open>
  Claim C10 does not hold for every \<open>m\<close>. With \<open>m = 2 ^ 32\<close> rows and one thread,
  \<open>items_per_thread\<close> is 0 and \<open>ub\<close> is \<open>- 1\<close> after the conversions to \<open>int\<close>: the range
  of the only thread is empty, no row is computed, and \<open>c\<close> is left as it was.
\<close>

theorem omp_rows_not_covered:
  "omp_bounds (2 ^ 32) 1 0 = Some (0, - 1) \<and>
   run_threads [] [] (replicate (2 ^ 32) (1 :: real)) (2 ^ 32) 0 1 [0] = Some (replicate (2 ^ 32) 1)"
proof -
  have "omp_bounds (2 ^ 32) 1 0 = Some (0, - 1)"
    by (simp add: omp_bounds_def to_size_t_def to_int_def in_int_def)
  moreover have "run_threads [] [] (replicate (2 ^ 32) (1 :: real)) (2 ^ 32) 0 1 [0]
      = Some (replicate (2 ^ 32) 1)"
    by (simp only: run_threads.simps omp_single_thread_large option.case)
  ultimately show ?thesis by (rule conjI)
qed

text \<open>
  Claim C10, amended. For \<open>1 \<le> m \<le> 2 ^ 31 - 1\<close> rows, \<open>n \<le> 2 ^ 31 - 1\<close> columns and
  \<open>k \<ge> 1\<close> threads (the values an \<open>int\<close> index can take), with arrays of the sizes
  \<open>run_parallel\<close> allocates: every row below \<open>m\<close> lies in the range \<open>[lb, ub]\<close> of exactly
  one thread id below \<open>k\<close>; the \<open>k\<close> calls, taken in any order, leave in \<open>c\<close> what the
  single call of \<open>matrix_vector_product\<close> leaves; and that is, for each row, the sum the
  loops compute.
\<close>

theorem omp_rows_partition_and_product:
  assumes "1 \<le> m" and "m < 2 ^ 31" and "n < 2 ^ 31" and "1 \<le> k" and "k < 2 ^ 31"
    and "length a = m * n" and "length b = n" and "length c = m" and "set ts = {0..<k}"
  shows "(\<forall>r<m. \<exists>!t. 0 \<le> t \<and> t < k \<and>
            (\<exists>lb ub. omp_bounds m k t = Some (lb, ub) \<and> lb \<le> int r \<and> int r \<le> ub)) \<and>
         run_threads a b c m n k ts = matrix_vector_product a b c m n \<and>
         matrix_vector_product a b c m n = Some (map (row_sum a b n) [0..<m])"
proof -
  have part: "\<exists>!t. 0 \<le> t \<and> t < k \<and>
            (\<exists>lb ub. omp_bounds m k t = Some (lb, ub) \<and> lb \<le> int r \<and> int r \<le> ub)"
    if "r < m" for r
  proof -
    have eq: "(\<exists>lb ub. omp_bounds m k t = Some (lb, ub) \<and> lb \<le> int r \<and> int r \<le> ub)
             = (lo m k t \<le> r \<and> r < hi m k t)" if "0 \<le> t" and "t < k" for t
      using omp_bounds_eq [OF assms(1,2,4,5) that] by auto
    from partition_rows [OF assms(4) \<open>r < m\<close>] obtain t0 where
      t0: "0 \<le> t0" "t0 < k" "lo m k t0 \<le> r" "r < hi m k t0"
      and u: "\<And>t. 0 \<le> t \<and> t < k \<and> lo m k t \<le> r \<and> r < hi m k t \<Longrightarrow> t = t0"
      by (auto simp: Ex1_def)
    show ?thesis
    proof (rule ex1I [of _ t0])
      show "0 \<le> t0 \<and> t0 < k \<and>
            (\<exists>lb ub. omp_bounds m k t0 = Some (lb, ub) \<and> lb \<le> int r \<and> int r \<le> ub)"
        using t0 eq [of t0] by simp
    next
      fix t
      assume h: "0 \<le> t \<and> t < k \<and>
            (\<exists>lb ub. omp_bounds m k t = Some (lb, ub) \<and> lb \<le> int r \<and> int r \<le> ub)"
      then have "lo m k t \<le> r \<and> r < hi m k t" using eq [of t] by simp
      with h u [of t] show "t = t0" by simp
    qed
  qed
  have single: "matrix_vector_product a b c m n = Some (map (row_sum a b n) [0..<m])"
    using assms(2,3,6,7,8) by (intro matrix_vector_product_eq) simp_all
  have ts: "\<forall>t \<in> set ts. 0 \<le> t \<and> t < k" using assms(9) by simp
  have an: "m * n \<le> length a" "n \<le> length b" using assms(6,7) by simp_all
  have covered: "\<exists>t \<in> set ts. lo m k t \<le> r \<and> r < hi m k t" if "r < m" for r
    using partition_rows [OF assms(4) that] assms(9) by auto
  have "run_threads a b c m n k ts
      = Some (map (\<lambda>r. if \<exists>t \<in> set ts. lo m k t \<le> r \<and> r < hi m k t
                          then row_sum a b n r else c ! r) [0..<m])"
    using run_threads_eq [OF assms(1-5) an assms(8) ts] .
  also have "\<dots> = Some (map (row_sum a b n) [0..<m])"
    using covered by simp
  finally have "run_threads a b c m n k ts = matrix_vector_product a b c m n"
    using single by simp
  with part single show ?thesis by blast
qed

theorem omp_rows_partition_and_product_witness:
  "(1::nat) \<le> 3 \<and> (3::nat) < 2 ^ 31 \<and> (2::nat) < 2 ^ 31 \<and> (1::int) \<le> 2 \<and> (2::int) < 2 ^ 31 \<and>
   length [1, 2, 3, 4, 5, 6 :: real] = 3 * 2 \<and> length [1, 1 :: real] = 2 \<and>
   length [9, 9, 9 :: real] = 3 \<and> set [1, 0 :: int] = {0..<2} \<and>
   omp_bounds 3 2 0 = Some (0, 0) \<and> omp_bounds 3 2 1 = Some (1, 2) \<and>
   run_threads [1, 2, 3, 4, 5, 6] [1, 1] [9, 9, 9 :: real] 3 2 2 [1, 0] = Some [3, 7, 11] \<and>
   matrix_vector_product [1, 2, 3, 4, 5, 6] [1, 1] [9, 9, 9 :: real] 3 2 = Some [3, 7, 11]"
proof -
  have h: "(1::nat) \<le> 3" "(3::nat) < 2 ^ 31" "(2::nat) < 2 ^ 31" "(1::int) \<le> 2" "(2::int) < 2 ^ 31"
    "length [1, 2, 3, 4, 5, 6 :: real] = 3 * 2" "length [1, 1 :: real] = 2"
    "length [9, 9, 9 :: real] = 3" "set [1, 0 :: int] = {0..<2}"
    by auto
  have b: "omp_bounds 3 2 0 = Some (0, 0)" "omp_bounds 3 2 1 = Some (1, 2)"
    by (simp_all add: omp_bounds_def to_size_t_def to_int_def in_int_def)
  have r: "map (row_sum [1, 2, 3, 4, 5, 6] [1, 1 :: real] 2) [0..<3] = [3, 7, 11]"
    by (simp add: row_sum_def eval_nat_numeral upt_conv_Cons)
  from omp_rows_partition_and_product [OF h] r
  have "run_threads [1, 2, 3, 4, 5, 6] [1, 1] [9, 9, 9 :: real] 3 2 2 [1, 0] = Some [3, 7, 11]"
    and "matrix_vector_product [1, 2, 3, 4, 5, 6] [1, 1] [9, 9, 9 :: real] 3 2 = Some [3, 7, 11]"
    by simp_all
  with h b show ?thesis by blast
qed

end
